theory Spec2Isabelle
  imports Main "HOL-Library.Monad_Syntax"
begin

section \<open>Data model of \<^verbatim>\<open>main.py\<close>\<close>

text \<open>
  \<^verbatim>\<open>Vec2\<close> is a pair of Python integers. The fields are called \<open>vx\<close> and \<open>vy\<close>
  here (the source calls them \<^verbatim>\<open>x\<close> and \<^verbatim>\<open>y\<close>).
\<close>

record Vec2 =
  vx :: int
  vy :: int

record Tile =
  pos :: Vec2
  isMine :: bool
  flagged :: bool
  isRevealed :: bool
  mines :: int

text \<open>
  Tiles are mutable objects that the source reaches through references: the entries of
  \<^verbatim>\<open>tilemap\<close>, the elements of the list built by \<^verbatim>\<open>get_neighbour_tiles\<close> and the local
  variable \<^verbatim>\<open>tile\<close> all alias the same objects. The model keeps an explicit store: a
  reference is an address, the store \<open>heap\<close> maps every address to the current value of
  the object, and an entry of \<^verbatim>\<open>tilemap\<close> is \<open>None\<close> (Python's \<^verbatim>\<open>None\<close>, the border
  sentinel) or \<open>Some a\<close>.

  Of the slots of \<^verbatim>\<open>Game\<close> the record keeps those that the game logic reads or writes
  (\<^verbatim>\<open>_display\<close> and \<^verbatim>\<open>font\<close> are presentation only, \<^verbatim>\<open>tilesize\<close> is the constant 32).
\<close>

type_synonym addr = nat

record Game =
  tilemap :: "addr option list list"
  hTiles :: int
  vTiles :: int
  running :: bool
  minesSet :: bool
  heap :: "addr \<Rightarrow> Tile"

definition tilesize :: int where
  "tilesize = 32"

section \<open>Python list indexing\<close>

text \<open>
  \<^verbatim>\<open>xs[i]\<close>: a negative index counts from the end, an index out of range raises
  \<^verbatim>\<open>IndexError\<close>. Every function of the model that can raise returns an option, and
  \<open>None\<close> is the raised exception.
\<close>

definition getitem :: "'a list \<Rightarrow> int \<Rightarrow> 'a option" where
  "getitem xs i =
     (if 0 \<le> i \<and> i < int (length xs) then Some (xs ! nat i)
      else if i < 0 \<and> 0 \<le> int (length xs) + i then Some (xs ! nat (int (length xs) + i))
      else None)"

text \<open>\<^verbatim>\<open>self.tilemap[pos.y][pos.x]\<close>: the result \<open>Some None\<close> is the sentinel.\<close>

definition tile_at :: "Game \<Rightarrow> Vec2 \<Rightarrow> addr option option" where
  "tile_at g p = do { row \<leftarrow> getitem (tilemap g) (vy p); getitem row (vx p) }"

section \<open>Construction of the grid\<close>

text \<open>
  \<^verbatim>\<open>Game.__init__\<close> starts from the empty \<^verbatim>\<open>tilemap\<close> and calls \<^verbatim>\<open>init_tilemap\<close>, which
  appends one row per \<^verbatim>\<open>y\<close> in \<^verbatim>\<open>range(vTiles)\<close>: a row of \<^verbatim>\<open>None\<close> for the first and the
  last \<^verbatim>\<open>y\<close>, and otherwise a row whose first and last entries are \<^verbatim>\<open>None\<close> and whose
  other entries are freshly created tiles \<^verbatim>\<open>Tile(Vec2(x, y), False)\<close>. The object
  created for the cell \<open>(x, y)\<close> is stored at address \<open>y * hTiles + x\<close>: the cells get
  pairwise different addresses, as fresh objects do, and the store is written at these
  addresses only. \<^verbatim>\<open>init_tilemap\<close> is called once, by \<^verbatim>\<open>__init__\<close>, so the row that
  \<^verbatim>\<open>self.tilemap[y]\<close> names in its inner loop is the row it has just appended.
\<close>

definition new_tile :: "Vec2 \<Rightarrow> Tile" where
  "new_tile p = \<lparr>pos = p, isMine = False, flagged = False, isRevealed = False, mines = 0\<rparr>"

definition tile_addr :: "int \<Rightarrow> int \<Rightarrow> int \<Rightarrow> addr" where
  "tile_addr w xx yy = nat (yy * w + xx)"

definition init_row :: "int \<Rightarrow> int \<Rightarrow> int \<Rightarrow> addr option list" where
  "init_row w h yy =
     (if yy = 0 \<or> yy = h - 1 then map (\<lambda>_. None) [0..w - 1]
      else map (\<lambda>xx. if xx = 0 \<or> xx = w - 1 then None else Some (tile_addr w xx yy)) [0..w - 1])"

definition init_tilemap :: "Game \<Rightarrow> Game" where
  "init_tilemap g =
     g\<lparr>tilemap := tilemap g @ map (init_row (hTiles g) (vTiles g)) [0..vTiles g - 1],
       heap := (\<lambda>a. let xx = int a mod hTiles g; yy = int a div hTiles g
                    in if 0 < xx \<and> xx < hTiles g - 1 \<and> 0 < yy \<and> yy < vTiles g - 1
                       then new_tile \<lparr>vx = xx, vy = yy\<rparr> else heap g a)\<rparr>"

definition Game_init :: "int \<Rightarrow> int \<Rightarrow> Game" where
  "Game_init horizontalTiles verticalTiles =
     init_tilemap \<lparr>tilemap = [], hTiles = horizontalTiles, vTiles = verticalTiles,
                   running = True, minesSet = False,
                   heap = (\<lambda>a. new_tile \<lparr>vx = 0, vy = 0\<rparr>)\<rparr>"

section \<open>Neighbours\<close>

text \<open>
  \<^verbatim>\<open>get_neighbour_tiles\<close> reads the eight surrounding entries in the order of the source
  (any read out of range raises) and keeps those that are not \<^verbatim>\<open>None\<close>.
\<close>

definition neighbour_coords :: "Vec2 \<Rightarrow> Vec2 list" where
  "neighbour_coords p =
     [\<lparr>vx = vx p - 1, vy = vy p - 1\<rparr>, \<lparr>vx = vx p, vy = vy p - 1\<rparr>, \<lparr>vx = vx p + 1, vy = vy p - 1\<rparr>,
      \<lparr>vx = vx p - 1, vy = vy p\<rparr>, \<lparr>vx = vx p + 1, vy = vy p\<rparr>,
      \<lparr>vx = vx p - 1, vy = vy p + 1\<rparr>, \<lparr>vx = vx p, vy = vy p + 1\<rparr>, \<lparr>vx = vx p + 1, vy = vy p + 1\<rparr>]"

definition get_neighbour_tiles :: "Game \<Rightarrow> Vec2 \<Rightarrow> addr list option" where
  "get_neighbour_tiles g p =
     do { es \<leftarrow> those (map (tile_at g) (neighbour_coords p));
          Some (List.map_filter (\<lambda>i. i) es) }"

section \<open>The reveal engine\<close>

definition set_revealed :: "Game \<Rightarrow> addr \<Rightarrow> Game" where
  "set_revealed g a = g\<lparr>heap := (heap g)(a := (heap g a)\<lparr>isRevealed := True\<rparr>)\<rparr>"

text \<open>
  \<^verbatim>\<open>reveal_tiles\<close> and the loop over \<^verbatim>\<open>neighbours\<close> in its body. Reading \<^verbatim>\<open>.mines\<close> of
  the sentinel raises \<^verbatim>\<open>AttributeError\<close>.
\<close>

function reveal_tiles :: "Game \<Rightarrow> Vec2 \<Rightarrow> Game option"
  and reveal_loop :: "Game \<Rightarrow> addr list \<Rightarrow> Game option" where
  "reveal_tiles g p =
     do { t \<leftarrow> tile_at g p;
          a \<leftarrow> t;
          if mines (heap g a) = 0
          then do { neighbours \<leftarrow> get_neighbour_tiles g p; reveal_loop g neighbours }
          else Some g }"
| "reveal_loop g [] = Some g"
| "reveal_loop g (n # ns) =
     (if \<not> isRevealed (heap g n) \<and> mines (heap g n) = 0
      then do { g' \<leftarrow> reveal_tiles (set_revealed g n) (pos (heap (set_revealed g n) n));
                reveal_loop (set_revealed g' n) ns }
      else reveal_loop (set_revealed g n) ns)"
  by pat_completeness auto

text \<open>
  The same two functions with a log: the second component lists, in call order, the tiles
  for which \<^verbatim>\<open>reveal_tiles\<close> called itself (line 131 of the source). The log is not
  part of the program; it makes the number of recursive calls a value.
\<close>

function reveal_tiles_calls :: "Game \<Rightarrow> Vec2 \<Rightarrow> (Game \<times> addr list) option"
  and reveal_loop_calls :: "Game \<Rightarrow> addr list \<Rightarrow> (Game \<times> addr list) option" where
  "reveal_tiles_calls g p =
     do { t \<leftarrow> tile_at g p;
          a \<leftarrow> t;
          if mines (heap g a) = 0
          then do { neighbours \<leftarrow> get_neighbour_tiles g p; reveal_loop_calls g neighbours }
          else Some (g, []) }"
| "reveal_loop_calls g [] = Some (g, [])"
| "reveal_loop_calls g (n # ns) =
     (if \<not> isRevealed (heap g n) \<and> mines (heap g n) = 0
      then do { r \<leftarrow> reveal_tiles_calls (set_revealed g n) (pos (heap (set_revealed g n) n));
                r' \<leftarrow> reveal_loop_calls (set_revealed (fst r) n) ns;
                Some (fst r', n # snd r @ snd r') }
      else reveal_loop_calls (set_revealed g n) ns)"
  by pat_completeness auto

section \<open>Mine placement\<close>

definition set_isMine :: "Game \<Rightarrow> addr \<Rightarrow> bool \<Rightarrow> Game" where
  "set_isMine g a b = g\<lparr>heap := (heap g)(a := (heap g a)\<lparr>isMine := b\<rparr>)\<rparr>"

definition set_count :: "Game \<Rightarrow> addr \<Rightarrow> int \<Rightarrow> Game" where
  "set_count g a c = g\<lparr>heap := (heap g)(a := (heap g a)\<lparr>mines := c\<rparr>)\<rparr>"

text \<open>
  The coordinates visited by
  \<^verbatim>\<open>for y in range(1, self._vTiles - 1): for x in range(1, self._hTiles - 1)\<close>,
  in the order of the visit.
\<close>

definition interior_coords :: "Game \<Rightarrow> Vec2 list" where
  "interior_coords g =
     concat (map (\<lambda>yy. map (\<lambda>xx. \<lparr>vx = xx, vy = yy\<rparr>) [1..hTiles g - 2]) [1..vTiles g - 2])"

text \<open>
  The first loop of \<^verbatim>\<open>set_mines\<close>. The random source is a parameter: \<open>rnd k\<close> is the
  value of the \<open>k\<close>-th call of \<^verbatim>\<open>random.randint(0, 6)\<close>; the tile becomes a mine when the
  draw is 0 (\<^verbatim>\<open>not random.randint(0, 6)\<close>), and the entry of \<^verbatim>\<open>tilemap\<close> is read only
  then.
\<close>

fun generate_mines :: "(nat \<Rightarrow> int) \<Rightarrow> nat \<Rightarrow> Game \<Rightarrow> Vec2 list \<Rightarrow> Game option" where
  "generate_mines rnd k g [] = Some g"
| "generate_mines rnd k g (c # cs) =
     (if rnd k = 0
      then do { t \<leftarrow> tile_at g c;
                a \<leftarrow> t;
                generate_mines rnd (Suc k) (set_isMine g a True) cs }
      else generate_mines rnd (Suc k) g cs)"

text \<open>The last loop of \<^verbatim>\<open>set_mines\<close>; the neighbours are those of \<^verbatim>\<open>tile.pos\<close>.\<close>

fun count_mines :: "Game \<Rightarrow> Vec2 list \<Rightarrow> Game option" where
  "count_mines g [] = Some g"
| "count_mines g (c # cs) =
     do { t \<leftarrow> tile_at g c;
          a \<leftarrow> t;
          neighbours \<leftarrow> get_neighbour_tiles g (pos (heap g a));
          count_mines (set_count g a (int (length (filter (\<lambda>n. isMine (heap g n)) neighbours)))) cs }"

definition set_mines :: "(nat \<Rightarrow> int) \<Rightarrow> Game \<Rightarrow> Vec2 \<Rightarrow> Game option" where
  "set_mines rnd g start_pos =
     do { g1 \<leftarrow> generate_mines rnd 0 (g\<lparr>minesSet := True\<rparr>) (interior_coords g);
          t \<leftarrow> tile_at g1 start_pos;
          a \<leftarrow> t;
          neighbours \<leftarrow> get_neighbour_tiles (set_isMine g1 a False) start_pos;
          count_mines (fold (\<lambda>n g'. set_isMine g' n False) neighbours (set_isMine g1 a False))
            (interior_coords g) }"

section \<open>Input handling\<close>

text \<open>
  The events of \<^verbatim>\<open>pg.event.get()\<close>. A \<^verbatim>\<open>MOUSEBUTTONDOWN\<close> event carries the value that
  \<^verbatim>\<open>pg.mouse.get_pos()\<close> returns while it is handled, and \<^verbatim>\<open>event.button\<close>.
\<close>

datatype event = QUIT | MOUSEBUTTONDOWN "int \<times> int" int | OTHER

definition click_pos :: "int \<times> int \<Rightarrow> Vec2" where
  "click_pos mPos =
     \<lparr>vx = (fst mPos + tilesize) div tilesize, vy = (snd mPos + tilesize) div tilesize\<rparr>"

definition set_flagged :: "Game \<Rightarrow> addr \<Rightarrow> bool \<Rightarrow> Game" where
  "set_flagged g a b = g\<lparr>heap := (heap g)(a := (heap g a)\<lparr>flagged := b\<rparr>)\<rparr>"

text \<open>
  The body of the loop of \<^verbatim>\<open>handle_events\<close> for one event. \<^verbatim>\<open>continue\<close> ends the
  handling of the event. Reading \<^verbatim>\<open>tile.flagged\<close> raises when \<^verbatim>\<open>tile\<close> is the sentinel;
  with a button other than 1 and 3 the tile is looked up and not used.
\<close>

definition handle_event :: "(nat \<Rightarrow> int) \<Rightarrow> Game \<Rightarrow> event \<Rightarrow> Game option" where
  "handle_event rnd g e =
     (case e of
        QUIT \<Rightarrow> Some (g\<lparr>running := False\<rparr>)
      | OTHER \<Rightarrow> Some g
      | MOUSEBUTTONDOWN mPos b \<Rightarrow>
          do { tile \<leftarrow> tile_at g (click_pos mPos);
               if b = 1 then
                 do { a \<leftarrow> tile;
                      if flagged (heap g a) then Some g
                      else if isRevealed (heap g a) then Some g
                      else do { g2 \<leftarrow> (let g1 = (if isMine (heap g a) then g\<lparr>running := False\<rparr> else g)
                                       in if \<not> minesSet g1 then set_mines rnd g1 (click_pos mPos)
                                          else Some g1);
                                reveal_tiles (set_revealed g2 a) (click_pos mPos) } }
               else if b = 3 then
                 do { a \<leftarrow> tile; Some (set_flagged g a (\<not> flagged (heap g a))) }
               else Some g })"

fun handle_events :: "(nat \<Rightarrow> int) \<Rightarrow> Game \<Rightarrow> event list \<Rightarrow> Game option" where
  "handle_events rnd g [] = Some g"
| "handle_events rnd g (e # es) = do { g' \<leftarrow> handle_event rnd g e; handle_events rnd g' es }"

section \<open>Well-formed grids\<close>

text \<open>
  The interior coordinates, and the shape that \<^verbatim>\<open>init_tilemap\<close> gives the grid:
  \<^verbatim>\<open>vTiles\<close> rows of \<^verbatim>\<open>hTiles\<close> entries, a tile exactly at the interior coordinates, and
  every tile at the coordinate that its \<^verbatim>\<open>pos\<close> names.
\<close>

definition interior :: "Game \<Rightarrow> Vec2 \<Rightarrow> bool" where
  "interior g p \<longleftrightarrow> 1 \<le> vx p \<and> vx p \<le> hTiles g - 2 \<and> 1 \<le> vy p \<and> vy p \<le> vTiles g - 2"

definition cell_ok :: "Game \<Rightarrow> int \<Rightarrow> int \<Rightarrow> bool" where
  "cell_ok g yy xx =
     (case tilemap g ! nat yy ! nat xx of
        None \<Rightarrow> \<not> interior g \<lparr>vx = xx, vy = yy\<rparr>
      | Some a \<Rightarrow> interior g \<lparr>vx = xx, vy = yy\<rparr> \<and> pos (heap g a) = \<lparr>vx = xx, vy = yy\<rparr>)"

definition wf_game :: "Game \<Rightarrow> bool" where
  "wf_game g \<longleftrightarrow>
     length (tilemap g) = nat (vTiles g) \<and>
     list_all (\<lambda>row. length row = nat (hTiles g)) (tilemap g) \<and>
     list_all (\<lambda>yy. list_all (cell_ok g yy) [0..hTiles g - 1]) [0..vTiles g - 1]"

text \<open>The tiles of the grid, row by row, and how many of a set of tiles are not revealed.\<close>

definition live_tiles :: "Game \<Rightarrow> addr list" where
  "live_tiles g = List.map_filter (\<lambda>i. i) (concat (tilemap g))"

definition unrevealed :: "Game \<Rightarrow> addr set \<Rightarrow> nat" where
  "unrevealed g A = card {a \<in> A. \<not> isRevealed (heap g a)}"

text \<open>
  The state that \<^verbatim>\<open>set_mines\<close> establishes: the \<^verbatim>\<open>mines\<close> field of every interior tile
  is the number of its neighbours that are mines.
\<close>

definition counts_ok :: "Game \<Rightarrow> bool" where
  "counts_ok g \<longleftrightarrow>
     list_all (\<lambda>c. case (tile_at g c, get_neighbour_tiles g c) of
                      (Some (Some a), Some ns) \<Rightarrow>
                         mines (heap g a) = int (length (filter (\<lambda>n. isMine (heap g n)) ns))
                    | _ \<Rightarrow> False) (interior_coords g)"

text \<open>
  Two relations between a state and a later one. \<open>same_grid\<close>: the grid and the position
  of every tile are the same. \<open>only_reveals\<close>: nothing has changed except that tiles may
  have become revealed.
\<close>

definition same_grid :: "Game \<Rightarrow> Game \<Rightarrow> bool" where
  "same_grid g g' \<longleftrightarrow>
     tilemap g' = tilemap g \<and> hTiles g' = hTiles g \<and> vTiles g' = vTiles g \<and>
     (\<forall>a. pos (heap g' a) = pos (heap g a))"

definition only_reveals :: "Game \<Rightarrow> Game \<Rightarrow> bool" where
  "only_reveals g g' \<longleftrightarrow>
     tilemap g' = tilemap g \<and> hTiles g' = hTiles g \<and> vTiles g' = vTiles g \<and>
     running g' = running g \<and> minesSet g' = minesSet g \<and>
     (\<forall>a. heap g' a = heap g a \<or> heap g' a = (heap g a)\<lparr>isRevealed := True\<rparr>)"

text \<open>The number of mines among the neighbours of the position of a tile.\<close>

definition mine_count :: "Game \<Rightarrow> addr \<Rightarrow> int" where
  "mine_count g a =
     (case get_neighbour_tiles g (pos (heap g a)) of
        None \<Rightarrow> 0
      | Some ns \<Rightarrow> int (length (filter (\<lambda>n. isMine (heap g n)) ns)))"

text \<open>
  A game in progress, used as a concrete state below: the 9 by 3 grid (one row of seven
  tiles), first clicked at its leftmost tile with draws that place mines on the fourth
  and the seventh tile of the row.
\<close>

definition example_rnd :: "nat \<Rightarrow> int" where
  "example_rnd k = (if k = 3 \<or> k = 6 then 0 else 1)"

definition example_game :: Game where
  "example_game = the (handle_events example_rnd (Game_init 9 3) [MOUSEBUTTONDOWN (0, 0) 1])"

section \<open>Termination of the reveal engine\<close>

text \<open>
  Each recursive call is made right after a tile that was not revealed has been marked
  revealed, and no tile is ever unmarked: the number of unrevealed tiles among those of
  the grid and those still to be visited decreases.
\<close>

lemma set_map_filter_id: "set (List.map_filter (\<lambda>i. i) xs) = {a. Some a \<in> set xs}"
  by (induction xs) (auto simp: map_filter_def)

lemma getitem_in_set: "getitem xs i = Some v \<Longrightarrow> v \<in> set xs"
  by (auto simp: getitem_def split: if_splits)

lemma tile_at_live: "tile_at g p = Some (Some a) \<Longrightarrow> a \<in> set (live_tiles g)"
  by (auto simp: tile_at_def live_tiles_def set_map_filter_id bind_eq_Some_conv dest!: getitem_in_set)

lemma those_eq_Some: "those xs = Some ys \<Longrightarrow> xs = map Some ys"
  by (induction xs arbitrary: ys) (auto split: option.splits)

lemma neighbours_live:
  assumes "get_neighbour_tiles g p = Some ns"
  shows "set ns \<subseteq> set (live_tiles g)" and "length ns \<le> 8"
proof -
  from assms obtain es where es: "those (map (tile_at g) (neighbour_coords p)) = Some es"
    and ns: "ns = List.map_filter (\<lambda>i. i) es"
    by (auto simp: get_neighbour_tiles_def bind_eq_Some_conv)
  from es have m: "map (tile_at g) (neighbour_coords p) = map Some es"
    by (rule those_eq_Some)
  show "set ns \<subseteq> set (live_tiles g)"
  proof
    fix a assume "a \<in> set ns"
    then have "Some a \<in> set es" by (simp add: ns set_map_filter_id)
    then have "Some (Some a) \<in> set (map (tile_at g) (neighbour_coords p))"
      unfolding m by auto
    then show "a \<in> set (live_tiles g)" by (auto dest: tile_at_live[OF sym])
  qed
  have "length (map (tile_at g) (neighbour_coords p)) = length (map Some es)"
    by (simp only: m)
  then have "length es = 8" by (simp add: neighbour_coords_def)
  moreover have "length ns \<le> length es" unfolding ns map_filter_def by simp
  ultimately show "length ns \<le> 8" by simp
qed

lemma set_revealed_simps [simp]:
  "tilemap (set_revealed g a) = tilemap g"
  "isRevealed (heap (set_revealed g a) b) = (b = a \<or> isRevealed (heap g b))"
  "live_tiles (set_revealed g a) = live_tiles g"
  by (auto simp: set_revealed_def live_tiles_def)

lemma reveal_partial:
  "reveal_tiles_reveal_loop_dom (Inl (g, p)) \<Longrightarrow> reveal_tiles g p = Some g' \<Longrightarrow>
     tilemap g' = tilemap g \<and> (\<forall>a. isRevealed (heap g a) \<longrightarrow> isRevealed (heap g' a))"
  "reveal_tiles_reveal_loop_dom (Inr (g, ns)) \<Longrightarrow> reveal_loop g ns = Some g' \<Longrightarrow>
     tilemap g' = tilemap g \<and> (\<forall>a. isRevealed (heap g a) \<longrightarrow> isRevealed (heap g' a))"
proof (induction g p and g ns arbitrary: g' and g' rule: reveal_tiles_reveal_loop.pinduct)
  case (1 g p)
  from 1(1,3) obtain a where a: "tile_at g p = Some (Some a)"
    by (simp add: reveal_tiles.psimps bind_eq_Some_conv) blast
  show ?case
  proof (cases "mines (heap g a) = 0")
    case True
    with 1(1,3) a obtain ns where ns: "get_neighbour_tiles g p = Some ns"
      and g': "reveal_loop g ns = Some g'"
      by (simp add: reveal_tiles.psimps bind_eq_Some_conv) blast
    from 1(2)[OF a refl True ns g'] show ?thesis .
  next
    case False
    with 1(1,3) a have "g' = g" by (simp add: reveal_tiles.psimps)
    then show ?thesis by simp
  qed
next
  case (2 g)
  then show ?case by (simp add: reveal_loop.psimps)
next
  case (3 g n ns)
  show ?case
  proof (cases "\<not> isRevealed (heap g n) \<and> mines (heap g n) = 0")
    case True
    with 3(1,5) obtain g1 where
      g1: "reveal_tiles (set_revealed g n) (pos (heap (set_revealed g n) n)) = Some g1"
      and g': "reveal_loop (set_revealed g1 n) ns = Some g'"
      by (auto simp: reveal_loop.psimps bind_eq_Some_conv)
    from 3(2)[OF True g1] 3(3)[OF True g1 g'] show ?thesis by auto
  next
    case False
    with 3(1,5) have "reveal_loop (set_revealed g n) ns = Some g'"
      by (auto simp: reveal_loop.psimps)
    from 3(4)[OF False this] show ?thesis by auto
  qed
qed

lemma unrevealed_mono:
  assumes "finite B" "A \<subseteq> B" "\<And>a. a \<in> A \<Longrightarrow> \<not> isRevealed (heap g' a) \<Longrightarrow> \<not> isRevealed (heap g a)"
  shows "unrevealed g' A \<le> unrevealed g B"
  unfolding unrevealed_def using assms by (intro card_mono) auto

lemma unrevealed_less:
  assumes "finite B" "A \<subseteq> B" "\<And>a. a \<in> A \<Longrightarrow> \<not> isRevealed (heap g' a) \<Longrightarrow> \<not> isRevealed (heap g a)"
    "n \<in> B" "\<not> isRevealed (heap g n)" "isRevealed (heap g' n)"
  shows "unrevealed g' A < unrevealed g B"
  unfolding unrevealed_def using assms by (intro psubset_card_mono) auto

termination reveal_tiles
proof (relation "measures [\<lambda>c. case c of Inl (g, p) \<Rightarrow> unrevealed g (set (live_tiles g))
                                       | Inr (g, ns) \<Rightarrow> unrevealed g (set (live_tiles g) \<union> set ns),
                           \<lambda>c. case c of Inl (g, p) \<Rightarrow> 9 | Inr (g, ns) \<Rightarrow> length ns]", goal_cases)
  case 1
  then show ?case by simp
next
  case (2 g p t a ns)
  then show ?case using neighbours_live[of g p ns]
    by (auto simp: Un_absorb2)
next
  case (3 g n ns)
  then show ?case
    by (auto intro!: unrevealed_less[where n = n])
next
  case (4 g n ns g1)
  from reveal_partial(1)[OF 4(3) 4(2)]
  have "unrevealed (set_revealed g1 n) (set (live_tiles g) \<union> set ns)
          \<le> unrevealed g (set (live_tiles g) \<union> set (n # ns))"
    by (intro unrevealed_mono) auto
  moreover have "live_tiles g1 = live_tiles g"
    using reveal_partial(1)[OF 4(3) 4(2)] by (simp add: live_tiles_def)
  ultimately show ?case by auto
next
  case (5 g n ns)
  have "unrevealed (set_revealed g n) (set (live_tiles g) \<union> set ns)
          \<le> unrevealed g (set (live_tiles g) \<union> set (n # ns))"
    by (intro unrevealed_mono) auto
  then show ?case by auto
qed

lemma reveal_calls_partial:
  "reveal_tiles_calls_reveal_loop_calls_dom (Inl (g, p)) \<Longrightarrow> reveal_tiles_calls g p = Some r \<Longrightarrow>
     tilemap (fst r) = tilemap g \<and> (\<forall>a. isRevealed (heap g a) \<longrightarrow> isRevealed (heap (fst r) a))"
  "reveal_tiles_calls_reveal_loop_calls_dom (Inr (g, ns)) \<Longrightarrow> reveal_loop_calls g ns = Some r \<Longrightarrow>
     tilemap (fst r) = tilemap g \<and> (\<forall>a. isRevealed (heap g a) \<longrightarrow> isRevealed (heap (fst r) a))"
proof (induction g p and g ns arbitrary: r and r rule: reveal_tiles_calls_reveal_loop_calls.pinduct)
  case (1 g p)
  from 1(1,3) obtain a where a: "tile_at g p = Some (Some a)"
    by (simp add: reveal_tiles_calls.psimps bind_eq_Some_conv) blast
  show ?case
  proof (cases "mines (heap g a) = 0")
    case True
    with 1(1,3) a obtain ns where ns: "get_neighbour_tiles g p = Some ns"
      and r: "reveal_loop_calls g ns = Some r"
      by (simp add: reveal_tiles_calls.psimps bind_eq_Some_conv) blast
    from 1(2)[OF a refl True ns r] show ?thesis .
  next
    case False
    with 1(1,3) a have "r = (g, [])" by (simp add: reveal_tiles_calls.psimps)
    then show ?thesis by simp
  qed
next
  case (2 g)
  then show ?case by (auto simp: reveal_loop_calls.psimps)
next
  case (3 g n ns)
  show ?case
  proof (cases "\<not> isRevealed (heap g n) \<and> mines (heap g n) = 0")
    case True
    with 3(1,5) obtain r1 r2 where
      r1: "reveal_tiles_calls (set_revealed g n) (pos (heap (set_revealed g n) n)) = Some r1"
      and r2: "reveal_loop_calls (set_revealed (fst r1) n) ns = Some r2"
      and r: "r = (fst r2, n # snd r1 @ snd r2)"
      by (auto simp: reveal_loop_calls.psimps bind_eq_Some_conv)
    from 3(2)[OF True r1] 3(3)[OF True r1 r2] show ?thesis by (auto simp: r)
  next
    case False
    with 3(1,5) have "reveal_loop_calls (set_revealed g n) ns = Some r"
      by (auto simp: reveal_loop_calls.psimps)
    from 3(4)[OF False this] show ?thesis by auto
  qed
qed

termination reveal_tiles_calls
proof (relation "measures [\<lambda>c. case c of Inl (g, p) \<Rightarrow> unrevealed g (set (live_tiles g))
                                       | Inr (g, ns) \<Rightarrow> unrevealed g (set (live_tiles g) \<union> set ns),
                           \<lambda>c. case c of Inl (g, p) \<Rightarrow> 9 | Inr (g, ns) \<Rightarrow> length ns]", goal_cases)
  case 1
  then show ?case by simp
next
  case (2 g p t a ns)
  then show ?case using neighbours_live[of g p ns]
    by (auto simp: Un_absorb2)
next
  case (3 g n ns)
  then show ?case
    by (auto intro!: unrevealed_less[where n = n])
next
  case (4 g n ns r1)
  from reveal_calls_partial(1)[OF 4(3) 4(2)]
  have "unrevealed (set_revealed (fst r1) n) (set (live_tiles g) \<union> set ns)
          \<le> unrevealed g (set (live_tiles g) \<union> set (n # ns))"
    by (intro unrevealed_mono) auto
  moreover have "live_tiles (fst r1) = live_tiles g"
    using reveal_calls_partial(1)[OF 4(3) 4(2)] by (simp add: live_tiles_def)
  ultimately show ?case by auto
next
  case (5 g n ns)
  have "unrevealed (set_revealed g n) (set (live_tiles g) \<union> set ns)
          \<le> unrevealed g (set (live_tiles g) \<union> set (n # ns))"
    by (intro unrevealed_mono) auto
  then show ?case by auto
qed

lemma calls_fst:
  "map_option fst (reveal_tiles_calls g p) = reveal_tiles g p"
  "map_option fst (reveal_loop_calls g ns) = reveal_loop g ns"
proof (induction g p and g ns rule: reveal_tiles_reveal_loop.induct)
  case (1 g p)
  then show ?case
    by (cases "tile_at g p"; cases "the (tile_at g p)"; cases "get_neighbour_tiles g p") auto
next
  case (2 g)
  then show ?case by simp
next
  case (3 g n ns)
  show ?case
  proof (cases "\<not> isRevealed (heap g n) \<and> mines (heap g n) = 0")
    case True
    note IH = 3(1)[OF True] 3(2)[OF True]
    show ?thesis
    proof (cases "reveal_tiles_calls (set_revealed g n) (pos (heap (set_revealed g n) n))")
      case None
      with IH(1) True show ?thesis by (simp del: set_revealed_simps)
    next
      case (Some r1)
      with IH(1) have rt: "reveal_tiles (set_revealed g n) (pos (heap (set_revealed g n) n)) = Some (fst r1)"
        by (simp del: set_revealed_simps)
      from IH(2)[OF rt] Some rt True show ?thesis
        by (cases "reveal_loop_calls (set_revealed (fst r1) n) ns") (auto simp del: reveal_tiles.simps reveal_tiles_calls.simps)
    qed
  next
    case False
    with 3(3) show ?thesis by auto
  qed
qed

section \<open>Facts about well-formed grids\<close>

lemma wf_cell:
  assumes "wf_game g" "0 \<le> yy" "yy < vTiles g" "0 \<le> xx" "xx < hTiles g"
  shows "nat yy < length (tilemap g)" "length (tilemap g ! nat yy) = nat (hTiles g)"
    "cell_ok g yy xx"
proof -
  from assms show 1: "nat yy < length (tilemap g)" by (simp add: wf_game_def)
  from assms(1) have "\<forall>row \<in> set (tilemap g). length row = nat (hTiles g)"
    by (simp add: wf_game_def list_all_iff)
  with 1 show "length (tilemap g ! nat yy) = nat (hTiles g)" by simp
  from assms(1) have "\<forall>y\<in>{0..vTiles g - 1}. \<forall>x\<in>{0..hTiles g - 1}. cell_ok g y x"
    by (simp add: wf_game_def list_all_iff)
  with assms show "cell_ok g yy xx" by simp
qed

lemma getitem_nonneg: "0 \<le> i \<Longrightarrow> i < int (length xs) \<Longrightarrow> getitem xs i = Some (xs ! nat i)"
  by (simp add: getitem_def)

lemma getitem_Some_nth:
  assumes "getitem xs i = Some v"
  shows "\<exists>j < length xs. v = xs ! j"
proof (cases "0 \<le> i")
  case True
  with assms have "nat i < length xs \<and> v = xs ! nat i"
    by (auto simp: getitem_def split: if_splits)
  then show ?thesis by blast
next
  case False
  with assms have "nat (int (length xs) + i) < length xs \<and> v = xs ! nat (int (length xs) + i)"
    by (auto simp: getitem_def split: if_splits)
  then show ?thesis by blast
qed

lemma wf_tile_at:
  assumes "wf_game g" "0 \<le> vy p" "vy p < vTiles g" "0 \<le> vx p" "vx p < hTiles g"
  shows "tile_at g p = Some (tilemap g ! nat (vy p) ! nat (vx p))"
  using wf_cell(1,2)[OF assms] assms by (simp add: tile_at_def getitem_nonneg)

lemma wf_interior:
  assumes "wf_game g" "interior g p"
  shows "\<exists>a. tile_at g p = Some (Some a) \<and> pos (heap g a) = p"
proof -
  from assms(2) have b: "0 \<le> vy p" "vy p < vTiles g" "0 \<le> vx p" "vx p < hTiles g"
    by (auto simp: interior_def)
  have p: "\<lparr>vx = vx p, vy = vy p\<rparr> = p" by simp
  from wf_cell(3)[OF assms(1) b] assms(2) wf_tile_at[OF assms(1) b] show ?thesis
    by (auto simp: cell_ok_def p split: option.splits)
qed

lemma wf_border:
  assumes "wf_game g" "0 \<le> vy p" "vy p < vTiles g" "0 \<le> vx p" "vx p < hTiles g" "\<not> interior g p"
  shows "tile_at g p = Some None"
proof -
  have p: "\<lparr>vx = vx p, vy = vy p\<rparr> = p" by simp
  from wf_cell(3)[OF assms(1-5)] assms(6) wf_tile_at[OF assms(1-5)] show ?thesis
    by (auto simp: cell_ok_def p split: option.splits)
qed

lemma wf_tile_at_Some:
  assumes "wf_game g" "tile_at g p = Some (Some a)"
  shows "interior g (pos (heap g a))" "tile_at g (pos (heap g a)) = Some (Some a)"
proof -
  from assms(2) obtain row where row: "getitem (tilemap g) (vy p) = Some row"
    and a: "getitem row (vx p) = Some (Some a)"
    by (auto simp: tile_at_def bind_eq_Some_conv)
  from getitem_Some_nth[OF row] obtain j where j: "j < length (tilemap g)" "row = tilemap g ! j"
    by blast
  from getitem_Some_nth[OF a] obtain i where i: "i < length row" "Some a = row ! i"
    by blast
  from assms(1) j have len: "length row = nat (hTiles g)"
    by (simp add: wf_game_def list_all_iff)
  from assms(1) j have jb: "0 \<le> int j" "int j < vTiles g" by (auto simp: wf_game_def)
  from i len have ib: "0 \<le> int i" "int i < hTiles g" by auto
  from wf_cell(3)[OF assms(1) jb ib] i(2) j(2)
  have *: "interior g \<lparr>vx = int i, vy = int j\<rparr>" "pos (heap g a) = \<lparr>vx = int i, vy = int j\<rparr>"
    by (auto simp: cell_ok_def split: option.splits)
  then show "interior g (pos (heap g a))" by simp
  from wf_tile_at[OF assms(1), of "\<lparr>vx = int i, vy = int j\<rparr>"] jb ib i(2) j(2) *
  show "tile_at g (pos (heap g a)) = Some (Some a)" by simp
qed

lemma those_map_Some: "(\<And>x. x \<in> set xs \<Longrightarrow> f x \<noteq> None) \<Longrightarrow> those (map f xs) = Some (map (\<lambda>x. the (f x)) xs)"
  by (induction xs) (auto split: option.splits)

lemma neighbours_set:
  assumes "get_neighbour_tiles g p = Some ns"
  shows "set ns = {a. \<exists>q \<in> set (neighbour_coords p). tile_at g q = Some (Some a)}"
proof -
  from assms obtain es where es: "those (map (tile_at g) (neighbour_coords p)) = Some es"
    and ns: "ns = List.map_filter (\<lambda>i. i) es"
    by (auto simp: get_neighbour_tiles_def bind_eq_Some_conv)
  from es have m: "map (tile_at g) (neighbour_coords p) = map Some es"
    by (rule those_eq_Some)
  have "Some a \<in> set es \<longleftrightarrow> (\<exists>q \<in> set (neighbour_coords p). tile_at g q = Some (Some a))" for a
  proof -
    have "Some a \<in> set es \<longleftrightarrow> Some (Some a) \<in> set (map Some es)" by auto
    also have "\<dots> \<longleftrightarrow> Some (Some a) \<in> set (map (tile_at g) (neighbour_coords p))" by (simp only: m)
    also have "\<dots> \<longleftrightarrow> (\<exists>q \<in> set (neighbour_coords p). tile_at g q = Some (Some a))" by force
    finally show ?thesis .
  qed
  then show ?thesis by (simp add: ns set_map_filter_id)
qed

lemma neighbour_coords_bounds:
  assumes "interior g p" "q \<in> set (neighbour_coords p)"
  shows "0 \<le> vy q" "vy q < vTiles g" "0 \<le> vx q" "vx q < hTiles g" "q \<noteq> p"
proof -
  from assms show "0 \<le> vy q" "vy q < vTiles g" "0 \<le> vx q" "vx q < hTiles g"
    by (auto simp: interior_def neighbour_coords_def)
  from assms(2) have "vx q \<noteq> vx p \<or> vy q \<noteq> vy p"
    by (auto simp: neighbour_coords_def)
  then show "q \<noteq> p" by auto
qed

lemma wf_neighbours:
  assumes "wf_game g" "interior g p"
  shows "\<exists>ns. get_neighbour_tiles g p = Some ns"
proof -
  have "tile_at g q \<noteq> None" if "q \<in> set (neighbour_coords p)" for q
    using wf_tile_at[OF assms(1) neighbour_coords_bounds(1-4)[OF assms(2) that]] by simp
  then have "those (map (tile_at g) (neighbour_coords p)) = Some (map (\<lambda>x. the (tile_at g x)) (neighbour_coords p))"
    by (rule those_map_Some)
  then show ?thesis by (simp add: get_neighbour_tiles_def)
qed

section \<open>The grid of \<^verbatim>\<open>init_tilemap\<close>\<close>

lemma Game_init_fields [simp]:
  "tilemap (Game_init w h) = map (init_row w h) [0..h - 1]"
  "hTiles (Game_init w h) = w" "vTiles (Game_init w h) = h"
  "running (Game_init w h) = True" "minesSet (Game_init w h) = False"
  by (simp_all add: Game_init_def init_tilemap_def)

lemma length_init_row [simp]: "length (init_row w h yy) = nat w"
  by (simp add: init_row_def)

lemma init_row_nth:
  "0 \<le> xx \<Longrightarrow> xx < w \<Longrightarrow>
   init_row w h yy ! nat xx =
     (if yy = 0 \<or> yy = h - 1 \<or> xx = 0 \<or> xx = w - 1 then None else Some (tile_addr w xx yy))"
  by (simp add: init_row_def)

lemma heap_init_tile_addr:
  assumes "0 < xx" "xx < w - 1" "0 < yy" "yy < h - 1"
  shows "heap (Game_init w h) (tile_addr w xx yy) = new_tile \<lparr>vx = xx, vy = yy\<rparr>"
proof -
  from assms have nn: "0 \<le> yy * w + xx" by simp
  from assms have "(yy * w + xx) mod w = xx" "(yy * w + xx) div w = yy" by simp_all
  with nn assms show ?thesis
    by (simp add: Game_init_def init_tilemap_def tile_addr_def Let_def)
qed

lemma cell_ok_init:
  assumes "0 \<le> yy" "yy < h" "0 \<le> xx" "xx < w"
  shows "cell_ok (Game_init w h) yy xx"
proof (cases "yy = 0 \<or> yy = h - 1 \<or> xx = 0 \<or> xx = w - 1")
  case True
  with assms show ?thesis
    by (auto simp: cell_ok_def init_row_nth interior_def)
next
  case False
  with assms have i: "0 < xx" "xx < w - 1" "0 < yy" "yy < h - 1" by auto
  from False assms heap_init_tile_addr[OF i, of ] show ?thesis
    by (auto simp: cell_ok_def init_row_nth interior_def new_tile_def)
qed

lemma wf_init: "wf_game (Game_init w h)"
  by (auto simp: wf_game_def list_all_iff cell_ok_init)

lemma heap_init_cases:
  "heap (Game_init w h) a = new_tile \<lparr>vx = 0, vy = 0\<rparr> \<or>
   (\<exists>p. heap (Game_init w h) a = new_tile p)"
  by (auto simp: Game_init_def init_tilemap_def Let_def)

lemma wf_tile_at_pos:
  assumes "wf_game g" "0 \<le> vy q" "vy q < vTiles g" "0 \<le> vx q" "vx q < hTiles g"
    "tile_at g q = Some (Some n)"
  shows "pos (heap g n) = q" "interior g q"
proof -
  have q: "\<lparr>vx = vx q, vy = vy q\<rparr> = q" by simp
  from wf_cell(3)[OF assms(1-5)] wf_tile_at[OF assms(1-5)] assms(6)
  show "pos (heap g n) = q" "interior g q"
    by (auto simp: cell_ok_def q split: option.splits)
qed

lemma wf_neighbour_tiles:
  assumes "wf_game g" "interior g p" "get_neighbour_tiles g p = Some ns" "n \<in> set ns"
  shows "pos (heap g n) \<in> set (neighbour_coords p)" "interior g (pos (heap g n))"
    "tile_at g (pos (heap g n)) = Some (Some n)"
proof -
  from neighbours_set[OF assms(3)] assms(4) obtain q where
    q: "q \<in> set (neighbour_coords p)" "tile_at g q = Some (Some n)" by auto
  from wf_tile_at_pos[OF assms(1) neighbour_coords_bounds(1-4)[OF assms(2) q(1)] q(2)] q
  show "pos (heap g n) \<in> set (neighbour_coords p)" "interior g (pos (heap g n))"
    "tile_at g (pos (heap g n)) = Some (Some n)" by auto
qed

lemma length_map_filter_id: "length (List.map_filter (\<lambda>i. i) es) = length (filter (\<lambda>e. e \<noteq> None) es)"
  by (induction es) (auto simp: map_filter_def)

lemma wf_neighbours_length:
  assumes "wf_game g" "interior g p" "get_neighbour_tiles g p = Some ns"
  shows "length ns = length (filter (interior g) (neighbour_coords p))"
proof -
  have ne: "tile_at g q \<noteq> None" if "q \<in> set (neighbour_coords p)" for q
    using wf_tile_at[OF assms(1) neighbour_coords_bounds(1-4)[OF assms(2) that]] by simp
  have iff: "(the (tile_at g q) \<noteq> None) = interior g q" if "q \<in> set (neighbour_coords p)" for q
  proof (cases "interior g q")
    case True
    from wf_interior[OF assms(1) True] show ?thesis using True by auto
  next
    case False
    from wf_border[OF assms(1) neighbour_coords_bounds(1-4)[OF assms(2) that] False]
    show ?thesis using False by simp
  qed
  from those_map_Some[of "neighbour_coords p" "tile_at g"] ne assms(3)
  have "ns = List.map_filter (\<lambda>i. i) (map (\<lambda>x. the (tile_at g x)) (neighbour_coords p))"
    by (simp add: get_neighbour_tiles_def)
  then have "length ns = length (filter (\<lambda>q. the (tile_at g q) \<noteq> None) (neighbour_coords p))"
    by (simp add: length_map_filter_id filter_map comp_def)
  also have "\<dots> = length (filter (interior g) (neighbour_coords p))"
    using iff by (intro arg_cong[where f = length] filter_cong) auto
  finally show ?thesis .
qed

lemma interior_neighbours_ge3:
  assumes "4 \<le> hTiles g" "4 \<le> vTiles g" "interior g p"
  shows "3 \<le> length (filter (interior g) (neighbour_coords p))"
proof -
  define dx :: int where "dx = (if vx p + 1 \<le> hTiles g - 2 then 1 else - 1)"
  define dy :: int where "dy = (if vy p + 1 \<le> vTiles g - 2 then 1 else - 1)"
  let ?A = "[\<lparr>vx = vx p + dx, vy = vy p\<rparr>, \<lparr>vx = vx p, vy = vy p + dy\<rparr>, \<lparr>vx = vx p + dx, vy = vy p + dy\<rparr>]"
  have d: "dx = 1 \<or> dx = - 1" "dy = 1 \<or> dy = - 1" by (auto simp: dx_def dy_def)
  have "distinct ?A" using d by auto
  moreover have "set ?A \<subseteq> set (filter (interior g) (neighbour_coords p))"
    using assms d by (auto simp: interior_def neighbour_coords_def dx_def dy_def split: if_splits)
  ultimately have "card (set ?A) \<le> card (set (filter (interior g) (neighbour_coords p)))"
    by (intro card_mono) auto
  moreover have "card (set ?A) = 3" using \<open>distinct ?A\<close> distinct_card[of ?A] by simp
  moreover have "card (set (filter (interior g) (neighbour_coords p))) \<le> length (filter (interior g) (neighbour_coords p))"
    by (rule card_length)
  ultimately show ?thesis by linarith
qed

section \<open>Frame properties\<close>

lemma same_grid_refl [simp]: "same_grid g g"
  by (simp add: same_grid_def)

lemma same_grid_trans: "same_grid g g' \<Longrightarrow> same_grid g' g'' \<Longrightarrow> same_grid g g''"
  by (simp add: same_grid_def)

lemma tile_at_tilemap: "tilemap g' = tilemap g \<Longrightarrow> tile_at g' = tile_at g"
  by (rule ext) (simp add: tile_at_def)

lemma get_neighbour_tiles_tilemap:
  assumes "tilemap g' = tilemap g"
  shows "get_neighbour_tiles g' = get_neighbour_tiles g"
  by (rule ext) (simp add: get_neighbour_tiles_def tile_at_tilemap[OF assms])

lemma same_grid_simps:
  assumes "same_grid g g'"
  shows "tile_at g' = tile_at g" "get_neighbour_tiles g' = get_neighbour_tiles g"
    "interior g' = interior g" "interior_coords g' = interior_coords g"
    "live_tiles g' = live_tiles g" "pos (heap g' a) = pos (heap g a)"
    "hTiles g' = hTiles g" "vTiles g' = vTiles g" "tilemap g' = tilemap g"
proof -
  from assms show t: "tilemap g' = tilemap g" and h: "hTiles g' = hTiles g"
    and v: "vTiles g' = vTiles g" and "pos (heap g' a) = pos (heap g a)"
    by (simp_all add: same_grid_def)
  from t show "tile_at g' = tile_at g" by (rule tile_at_tilemap)
  from t show "get_neighbour_tiles g' = get_neighbour_tiles g"
    by (rule get_neighbour_tiles_tilemap)
  show "interior g' = interior g" by (rule ext) (simp add: interior_def h v)
  show "interior_coords g' = interior_coords g" by (simp add: interior_coords_def h v)
  show "live_tiles g' = live_tiles g" by (simp add: live_tiles_def t)
qed

lemma same_grid_cell_ok:
  assumes "same_grid g g'"
  shows "cell_ok g' = cell_ok g"
  by (intro ext) (simp add: cell_ok_def same_grid_simps[OF assms] cong: option.case_cong)

lemma same_grid_wf:
  assumes "same_grid g g'"
  shows "wf_game g' = wf_game g"
  by (simp add: wf_game_def same_grid_cell_ok[OF assms] same_grid_simps[OF assms])

lemma same_grid_updates [simp]:
  "same_grid g (set_revealed g a)" "same_grid g (set_isMine g a b)"
  "same_grid g (set_count g a c)" "same_grid g (set_flagged g a b)"
  "same_grid g (g\<lparr>running := r\<rparr>)" "same_grid g (g\<lparr>minesSet := m\<rparr>)"
  by (simp_all add: same_grid_def set_revealed_def set_isMine_def set_count_def set_flagged_def)

lemma only_reveals_refl [simp]: "only_reveals g g"
  by (simp add: only_reveals_def)

lemma only_reveals_trans:
  assumes "only_reveals g g'" "only_reveals g' g''"
  shows "only_reveals g g''"
proof -
  have "heap g'' a = heap g a \<or> heap g'' a = (heap g a)\<lparr>isRevealed := True\<rparr>" for a
  proof -
    from assms(1) have 1: "heap g' a = heap g a \<or> heap g' a = (heap g a)\<lparr>isRevealed := True\<rparr>"
      by (simp add: only_reveals_def)
    from assms(2) have 2: "heap g'' a = heap g' a \<or> heap g'' a = (heap g' a)\<lparr>isRevealed := True\<rparr>"
      by (simp add: only_reveals_def)
    from 1 2 show ?thesis by auto
  qed
  with assms show ?thesis by (simp add: only_reveals_def)
qed

lemma only_reveals_set_revealed [simp]: "only_reveals g (set_revealed g a)"
  by (simp add: only_reveals_def set_revealed_def)

lemma only_reveals_fields:
  assumes "only_reveals g g'"
  shows "same_grid g g'" "running g' = running g" "minesSet g' = minesSet g"
    "isMine (heap g' a) = isMine (heap g a)" "mines (heap g' a) = mines (heap g a)"
    "flagged (heap g' a) = flagged (heap g a)"
    "isRevealed (heap g a) \<Longrightarrow> isRevealed (heap g' a)"
proof -
  from assms have h: "heap g' b = heap g b \<or> heap g' b = (heap g b)\<lparr>isRevealed := True\<rparr>" for b
    by (simp add: only_reveals_def)
  from assms show "running g' = running g" "minesSet g' = minesSet g"
    by (simp_all add: only_reveals_def)
  have "pos (heap g' b) = pos (heap g b)" for b using h[of b] by auto
  with assms show "same_grid g g'" by (simp add: same_grid_def only_reveals_def)
  show "isMine (heap g' a) = isMine (heap g a)" "mines (heap g' a) = mines (heap g a)"
    "flagged (heap g' a) = flagged (heap g a)"
    using h[of a] by auto
  show "isRevealed (heap g a) \<Longrightarrow> isRevealed (heap g' a)" using h[of a] by auto
qed

lemma reveal_only_reveals:
  "reveal_tiles g p = Some g' \<Longrightarrow> only_reveals g g'"
  "reveal_loop g ns = Some g' \<Longrightarrow> only_reveals g g'"
proof (induction g p and g ns arbitrary: g' and g' rule: reveal_tiles_reveal_loop.induct)
  case (1 g p)
  from 1(2) obtain a where a: "tile_at g p = Some (Some a)"
    by (simp add: bind_eq_Some_conv) blast
  show ?case
  proof (cases "mines (heap g a) = 0")
    case True
    with 1(2) a obtain ns where ns: "get_neighbour_tiles g p = Some ns"
      and g': "reveal_loop g ns = Some g'"
      by (simp add: bind_eq_Some_conv) blast
    from 1(1)[OF a refl True ns g'] show ?thesis .
  next
    case False
    with 1(2) a have "g' = g" by simp
    then show ?thesis by simp
  qed
next
  case (2 g)
  then show ?case by simp
next
  case (3 g n ns)
  show ?case
  proof (cases "\<not> isRevealed (heap g n) \<and> mines (heap g n) = 0")
    case True
    with 3(4) obtain g1 where
      g1: "reveal_tiles (set_revealed g n) (pos (heap (set_revealed g n) n)) = Some g1"
      and g': "reveal_loop (set_revealed g1 n) ns = Some g'"
      by (auto simp: bind_eq_Some_conv simp del: reveal_tiles.simps)
    from 3(1)[OF True g1] 3(2)[OF True g1 g'] show ?thesis
      by (blast intro: only_reveals_trans only_reveals_set_revealed)
  next
    case False
    with 3(4) have "reveal_loop (set_revealed g n) ns = Some g'"
      by auto
    from 3(3)[OF False this] show ?thesis
      by (blast intro: only_reveals_trans only_reveals_set_revealed)
  qed
qed

section \<open>The reveal engine on well-formed grids\<close>

lemma live_tile_at:
  assumes "a \<in> set (live_tiles g)"
  shows "\<exists>p. tile_at g p = Some (Some a)"
proof -
  from assms obtain row where row: "row \<in> set (tilemap g)" "Some a \<in> set row"
    by (auto simp: live_tiles_def set_map_filter_id)
  from row(1) obtain j where j: "j < length (tilemap g)" "tilemap g ! j = row"
    by (auto simp: in_set_conv_nth)
  from row(2) obtain i where i: "i < length row" "row ! i = Some a"
    by (auto simp: in_set_conv_nth)
  from i j have "tile_at g \<lparr>vx = int i, vy = int j\<rparr> = Some (Some a)"
    by (simp add: tile_at_def getitem_nonneg)
  then show ?thesis by blast
qed

lemma wf_live:
  assumes "wf_game g" "a \<in> set (live_tiles g)"
  shows "interior g (pos (heap g a))" "tile_at g (pos (heap g a)) = Some (Some a)"
proof -
  from live_tile_at[OF assms(2)] obtain p where "tile_at g p = Some (Some a)" by blast
  from wf_tile_at_Some[OF assms(1) this]
  show "interior g (pos (heap g a))" "tile_at g (pos (heap g a)) = Some (Some a)" .
qed

lemma reveal_ok:
  "wf_game g \<Longrightarrow> interior g p \<Longrightarrow> \<exists>g'. reveal_tiles g p = Some g'"
  "wf_game g \<Longrightarrow> set ns \<subseteq> set (live_tiles g) \<Longrightarrow> \<exists>g'. reveal_loop g ns = Some g'"
proof (induction g p and g ns rule: reveal_tiles_reveal_loop.induct)
  case (1 g p)
  from wf_interior[OF 1(2,3)] obtain a where a: "tile_at g p = Some (Some a)" by blast
  from wf_neighbours[OF 1(2,3)] obtain ns where ns: "get_neighbour_tiles g p = Some ns" by blast
  show ?case
  proof (cases "mines (heap g a) = 0")
    case True
    from 1(1)[OF a refl True ns 1(2) neighbours_live(1)[OF ns]] a ns True
    show ?thesis by simp
  next
    case False
    with a show ?thesis by simp
  qed
next
  case (2 g)
  then show ?case by simp
next
  case (3 g n ns)
  from 3(5) have n: "n \<in> set (live_tiles g)" and ns: "set ns \<subseteq> set (live_tiles g)" by auto
  have wf1: "wf_game (set_revealed g n)" using 3(4) same_grid_wf[of g "set_revealed g n"] by simp
  show ?case
  proof (cases "\<not> isRevealed (heap g n) \<and> mines (heap g n) = 0")
    case True
    have "interior (set_revealed g n) (pos (heap (set_revealed g n) n))"
      using wf_live(1)[OF wf1, of n] n by simp
    from 3(1)[OF True wf1 this] obtain g1 where
      g1: "reveal_tiles (set_revealed g n) (pos (heap (set_revealed g n) n)) = Some g1" by blast
    from reveal_only_reveals(1)[OF g1] have sg: "same_grid (set_revealed g n) g1"
      by (rule only_reveals_fields(1))
    have sg2: "same_grid (set_revealed g n) (set_revealed g1 n)"
      by (rule same_grid_trans[OF sg]) simp
    have wf2: "wf_game (set_revealed g1 n)" using same_grid_wf[OF sg2] wf1 by simp
    have "set ns \<subseteq> set (live_tiles (set_revealed g1 n))"
      using ns same_grid_simps(5)[OF sg2] by simp
    from 3(2)[OF True g1 wf2 this] g1 True show ?thesis
      by (simp del: reveal_tiles.simps)
  next
    case False
    from 3(3)[OF False wf1] ns False show ?thesis by auto
  qed
qed

lemma reveal_loop_reveals:
  "reveal_loop g ns = Some g' \<Longrightarrow> n \<in> set ns \<Longrightarrow> isRevealed (heap g' n)"
proof (induction ns arbitrary: g)
  case Nil
  then show ?case by simp
next
  case (Cons m ns)
  from Cons.prems(1) obtain g1 where g1: "reveal_loop (set_revealed g1 m) ns = Some g'"
    by (auto simp: bind_eq_Some_conv simp del: reveal_tiles.simps split: if_splits)
  show ?case
  proof (cases "n \<in> set ns")
    case True
    from Cons.IH[OF g1 True] show ?thesis .
  next
    case False
    with Cons.prems(2) have "n = m" by simp
    then have "isRevealed (heap (set_revealed g1 m) n)" by simp
    from only_reveals_fields(7)[OF reveal_only_reveals(2)[OF g1] this] show ?thesis .
  qed
qed

section \<open>The log of recursive calls\<close>

lemma calls_log:
  "reveal_tiles_calls g p = Some r \<Longrightarrow>
     distinct (snd r) \<and> set (snd r) \<subseteq> set (live_tiles g) \<and>
     (\<forall>c \<in> set (snd r). \<not> isRevealed (heap g c) \<and> isRevealed (heap (fst r) c))"
  "reveal_loop_calls g ns = Some r \<Longrightarrow>
     distinct (snd r) \<and> set (snd r) \<subseteq> set (live_tiles g) \<union> set ns \<and>
     (\<forall>c \<in> set (snd r). \<not> isRevealed (heap g c) \<and> isRevealed (heap (fst r) c))"
proof (induction g p and g ns arbitrary: r and r rule: reveal_tiles_calls_reveal_loop_calls.induct)
  case (1 g p)
  from 1(2) obtain a where a: "tile_at g p = Some (Some a)"
    by (simp add: bind_eq_Some_conv) blast
  show ?case
  proof (cases "mines (heap g a) = 0")
    case True
    with 1(2) a obtain ns where ns: "get_neighbour_tiles g p = Some ns"
      and r: "reveal_loop_calls g ns = Some r"
      by (simp add: bind_eq_Some_conv) blast
    from 1(1)[OF a refl True ns r] neighbours_live(1)[OF ns] show ?thesis by auto
  next
    case False
    with 1(2) a have "r = (g, [])" by simp
    then show ?thesis by simp
  qed
next
  case (2 g)
  then show ?case by auto
next
  case (3 g n ns)
  show ?case
  proof (cases "\<not> isRevealed (heap g n) \<and> mines (heap g n) = 0")
    case True
    with 3(4) obtain r1 r2 where
      r1: "reveal_tiles_calls (set_revealed g n) (pos (heap (set_revealed g n) n)) = Some r1"
      and r2: "reveal_loop_calls (set_revealed (fst r1) n) ns = Some r2"
      and r: "r = (fst r2, n # snd r1 @ snd r2)"
      by (auto simp: bind_eq_Some_conv simp del: reveal_tiles_calls.simps)
    note IH1 = 3(1)[OF True r1] and IH2 = 3(2)[OF True r1 r2]
    from calls_fst(1)[of "set_revealed g n" "pos (heap (set_revealed g n) n)"] r1
    have "reveal_tiles (set_revealed g n) (pos (heap (set_revealed g n) n)) = Some (fst r1)"
      by (simp del: reveal_tiles.simps reveal_tiles_calls.simps)
    from reveal_only_reveals(1)[OF this] have o1: "only_reveals (set_revealed g n) (fst r1)" .
    from calls_fst(2)[of "set_revealed (fst r1) n" ns] r2
    have "reveal_loop (set_revealed (fst r1) n) ns = Some (fst r2)" by simp
    from reveal_only_reveals(2)[OF this] have o2: "only_reveals (set_revealed (fst r1) n) (fst r2)" .
    have m1: "isRevealed (heap (fst r1) c)" if "isRevealed (heap (set_revealed g n) c)" for c
      using only_reveals_fields(7)[OF o1 that] .
    have m2: "isRevealed (heap (fst r2) c)" if "isRevealed (heap (set_revealed (fst r1) n) c)" for c
      using only_reveals_fields(7)[OF o2 that] .
    have lt: "live_tiles (set_revealed (fst r1) n) = live_tiles g"
      using same_grid_simps(5)[OF only_reveals_fields(1)[OF o1]] by simp
    have "n \<notin> set (snd r1)" using IH1 by auto
    moreover have "n \<notin> set (snd r2)" using IH2 by auto
    moreover have "set (snd r1) \<inter> set (snd r2) = {}" using IH1 IH2 by auto
    ultimately have d: "distinct (snd r)" using IH1 IH2 by (simp add: r)
    have s: "set (snd r) \<subseteq> set (live_tiles g) \<union> set (n # ns)"
      using IH1 IH2 lt by (auto simp: r)
    have "\<not> isRevealed (heap g c) \<and> isRevealed (heap (fst r) c)" if "c \<in> set (snd r)" for c
    proof -
      from that consider "c = n" | "c \<in> set (snd r1)" | "c \<in> set (snd r2)" by (auto simp: r)
      then show ?thesis
      proof cases
        case 1
        with True m1[of n] m2[of n] show ?thesis by (simp add: r)
      next
        case 2
        with IH1 have "\<not> isRevealed (heap (set_revealed g n) c)" "isRevealed (heap (fst r1) c)"
          by auto
        with m2[of c] show ?thesis by (simp add: r)
      next
        case 3
        with IH2 have *: "\<not> isRevealed (heap (set_revealed (fst r1) n) c)" "isRevealed (heap (fst r2) c)"
          by auto
        from *(1) m1[of c] have "\<not> isRevealed (heap g c)" by auto
        with * show ?thesis by (simp add: r)
      qed
    qed
    with d s show ?thesis by blast
  next
    case False
    with 3(4) have r: "reveal_loop_calls (set_revealed g n) ns = Some r" by auto
    from 3(3)[OF False r] show ?thesis by auto
  qed
qed

section \<open>The number of tiles of a well-formed grid\<close>

lemma card_interior_range: "card {i. i < nat w \<and> 1 \<le> int i \<and> int i \<le> w - 2} = nat (w - 2)"
proof -
  have "{i. i < nat w \<and> 1 \<le> int i \<and> int i \<le> w - 2} = {1..<nat (w - 1)}" by auto
  then show ?thesis by simp
qed

lemma length_filter_nth:
  "length (filter P xs) = card {i. i < length xs \<and> P (xs ! i)}"
  by (rule length_filter_conv_card)

lemma wf_row_count:
  assumes "wf_game g" "j < nat (vTiles g)"
  shows "length (filter (\<lambda>e. e \<noteq> None) (tilemap g ! j))
           = (if 1 \<le> int j \<and> int j \<le> vTiles g - 2 then nat (hTiles g - 2) else 0)"
proof -
  from assms have jb: "0 \<le> int j" "int j < vTiles g" by auto
  have len: "length (tilemap g ! j) = nat (hTiles g)"
    using assms by (simp add: wf_game_def list_all_iff)
  have iff: "(tilemap g ! j ! i \<noteq> None) = interior g \<lparr>vx = int i, vy = int j\<rparr>"
    if "i < nat (hTiles g)" for i
  proof -
    from that have ib: "0 \<le> int i" "int i < hTiles g" by auto
    from wf_cell(3)[OF assms(1) jb ib] show ?thesis
      by (auto simp: cell_ok_def split: option.splits)
  qed
  have "length (filter (\<lambda>e. e \<noteq> None) (tilemap g ! j))
          = card {i. i < nat (hTiles g) \<and> tilemap g ! j ! i \<noteq> None}"
    by (simp add: length_filter_nth len)
  also have "{i. i < nat (hTiles g) \<and> tilemap g ! j ! i \<noteq> None}
          = {i. i < nat (hTiles g) \<and> interior g \<lparr>vx = int i, vy = int j\<rparr>}"
    using iff by blast
  also have "card \<dots> = (if 1 \<le> int j \<and> int j \<le> vTiles g - 2 then nat (hTiles g - 2) else 0)"
  proof (cases "1 \<le> int j \<and> int j \<le> vTiles g - 2")
    case True
    then have "{i. i < nat (hTiles g) \<and> interior g \<lparr>vx = int i, vy = int j\<rparr>}
                 = {i. i < nat (hTiles g) \<and> 1 \<le> int i \<and> int i \<le> hTiles g - 2}"
      by (auto simp: interior_def)
    then have "card {i. i < nat (hTiles g) \<and> interior g \<lparr>vx = int i, vy = int j\<rparr>}
                 = nat (hTiles g - 2)"
      by (simp only: card_interior_range)
    then show ?thesis by (simp only: True simp_thms if_True)
  next
    case False
    then have "{i. i < nat (hTiles g) \<and> interior g \<lparr>vx = int i, vy = int j\<rparr>} = {}"
      by (auto simp: interior_def)
    then have "card {i. i < nat (hTiles g) \<and> interior g \<lparr>vx = int i, vy = int j\<rparr>} = 0"
      by (simp only: card.empty)
    then show ?thesis by (simp only: False simp_thms if_False)
  qed
  finally show ?thesis .
qed

lemma sum_list_if_const:
  "sum_list (map (\<lambda>j. if P j then c else 0) xs) = c * length (filter P xs)"
  by (induction xs) auto

lemma length_live_tiles:
  assumes "wf_game g"
  shows "length (live_tiles g) = nat (hTiles g - 2) * nat (vTiles g - 2)"
proof -
  let ?H = "nat (vTiles g)"
  let ?cnt = "\<lambda>row. length (filter (\<lambda>e. e \<noteq> None) row)"
  from assms have H: "length (tilemap g) = ?H" by (simp add: wf_game_def)
  have "length (live_tiles g) = sum_list (map ?cnt (tilemap g))"
    by (simp add: live_tiles_def length_map_filter_id filter_concat length_concat comp_def)
  also have "tilemap g = map (\<lambda>j. tilemap g ! j) [0..<?H]"
    using H map_nth[of "tilemap g"] by simp
  also have "sum_list (map ?cnt (map (\<lambda>j. tilemap g ! j) [0..<?H]))
               = sum_list (map (\<lambda>j. ?cnt (tilemap g ! j)) [0..<?H])"
    by (simp add: comp_def)
  also have "map (\<lambda>j. ?cnt (tilemap g ! j)) [0..<?H]
               = map (\<lambda>j. if 1 \<le> int j \<and> int j \<le> vTiles g - 2 then nat (hTiles g - 2) else 0) [0..<?H]"
  proof (rule map_cong[OF refl])
    fix j assume "j \<in> set [0..<?H]"
    then have "j < ?H" by simp
    from wf_row_count[OF assms this]
    show "?cnt (tilemap g ! j)
            = (if 1 \<le> int j \<and> int j \<le> vTiles g - 2 then nat (hTiles g - 2) else 0)" .
  qed
  also have "sum_list \<dots> = nat (hTiles g - 2) * length (filter (\<lambda>j. 1 \<le> int j \<and> int j \<le> vTiles g - 2) [0..<?H])"
    by (rule sum_list_if_const)
  also have "length (filter (\<lambda>j. 1 \<le> int j \<and> int j \<le> vTiles g - 2) [0..<?H])
               = card {j. j < ?H \<and> 1 \<le> int j \<and> int j \<le> vTiles g - 2}"
    by (simp add: length_filter_nth cong: conj_cong)
  also have "\<dots> = nat (vTiles g - 2)" by (rule card_interior_range)
  finally show ?thesis .
qed

section \<open>Mine counts and the reveal engine\<close>

lemma set_interior_coords: "set (interior_coords g) = {p. interior g p}"
proof (rule set_eqI)
  fix p :: Vec2
  have p: "\<lparr>vx = vx p, vy = vy p\<rparr> = p" by simp
  have "p \<in> set (interior_coords g) \<longleftrightarrow>
          (\<exists>yy \<in> {1..vTiles g - 2}. \<exists>xx \<in> {1..hTiles g - 2}. p = \<lparr>vx = xx, vy = yy\<rparr>)"
    by (auto simp: interior_coords_def)
  also have "\<dots> \<longleftrightarrow> interior g p"
  proof
    assume "\<exists>yy \<in> {1..vTiles g - 2}. \<exists>xx \<in> {1..hTiles g - 2}. p = \<lparr>vx = xx, vy = yy\<rparr>"
    then show "interior g p" by (auto simp: interior_def)
  next
    assume "interior g p"
    then have "vy p \<in> {1..vTiles g - 2}" "vx p \<in> {1..hTiles g - 2}"
      by (auto simp: interior_def)
    with p show "\<exists>yy \<in> {1..vTiles g - 2}. \<exists>xx \<in> {1..hTiles g - 2}. p = \<lparr>vx = xx, vy = yy\<rparr>"
      by metis
  qed
  finally show "p \<in> set (interior_coords g) \<longleftrightarrow> p \<in> {p. interior g p}" by simp
qed

lemma counts_okD:
  assumes "counts_ok g" "interior g p" "tile_at g p = Some (Some a)"
    "get_neighbour_tiles g p = Some ns"
  shows "mines (heap g a) = int (length (filter (\<lambda>n. isMine (heap g n)) ns))"
proof -
  from assms(2) have "p \<in> set (interior_coords g)" by (simp add: set_interior_coords)
  with assms(1) have "case (tile_at g p, get_neighbour_tiles g p) of
                      (Some (Some a), Some ns) \<Rightarrow>
                         mines (heap g a) = int (length (filter (\<lambda>n. isMine (heap g n)) ns))
                    | _ \<Rightarrow> False"
    unfolding counts_ok_def list_all_iff by blast
  with assms(3,4) show ?thesis by simp
qed

lemma counts_okI:
  assumes "\<And>p. interior g p \<Longrightarrow> \<exists>a ns. tile_at g p = Some (Some a) \<and>
             get_neighbour_tiles g p = Some ns \<and>
             mines (heap g a) = int (length (filter (\<lambda>n. isMine (heap g n)) ns))"
  shows "counts_ok g"
  unfolding counts_ok_def list_all_iff
proof
  fix p assume "p \<in> set (interior_coords g)"
  then have "interior g p" by (simp add: set_interior_coords)
  from assms[OF this] obtain a ns where "tile_at g p = Some (Some a)"
    "get_neighbour_tiles g p = Some ns"
    "mines (heap g a) = int (length (filter (\<lambda>n. isMine (heap g n)) ns))" by blast
  then show "case (tile_at g p, get_neighbour_tiles g p) of
                      (Some (Some a), Some ns) \<Rightarrow>
                         mines (heap g a) = int (length (filter (\<lambda>n. isMine (heap g n)) ns))
                    | _ \<Rightarrow> False" by simp
qed

lemma only_reveals_counts_ok:
  assumes "only_reveals g g'" "wf_game g" "counts_ok g"
  shows "counts_ok g'"
proof (rule counts_okI)
  fix p assume "interior g' p"
  note sg = only_reveals_fields(1)[OF assms(1)]
  from \<open>interior g' p\<close> have i: "interior g p" by (simp add: same_grid_simps(3)[OF sg])
  from wf_interior[OF assms(2) i] obtain a where a: "tile_at g p = Some (Some a)" by blast
  from wf_neighbours[OF assms(2) i] obtain ns where ns: "get_neighbour_tiles g p = Some ns" by blast
  from counts_okD[OF assms(3) i a ns]
  have "mines (heap g' a) = int (length (filter (\<lambda>n. isMine (heap g' n)) ns))"
    by (simp add: only_reveals_fields(4,5)[OF assms(1)])
  with a ns show "\<exists>a ns. tile_at g' p = Some (Some a) \<and>
             get_neighbour_tiles g' p = Some ns \<and>
             mines (heap g' a) = int (length (filter (\<lambda>n. isMine (heap g' n)) ns))"
    by (simp add: same_grid_simps(1,2)[OF sg])
qed

lemma reveal_no_mines:
  "wf_game g \<Longrightarrow> counts_ok g \<Longrightarrow> interior g p \<Longrightarrow> reveal_tiles g p = Some g' \<Longrightarrow>
     isRevealed (heap g' b) \<Longrightarrow> isMine (heap g b) \<Longrightarrow> isRevealed (heap g b)"
  "wf_game g \<Longrightarrow> counts_ok g \<Longrightarrow> set ns \<subseteq> set (live_tiles g) \<Longrightarrow>
     \<forall>n \<in> set ns. \<not> isMine (heap g n) \<Longrightarrow> reveal_loop g ns = Some g' \<Longrightarrow>
     isRevealed (heap g' b) \<Longrightarrow> isMine (heap g b) \<Longrightarrow> isRevealed (heap g b)"
proof (induction g p and g ns arbitrary: g' b and g' b rule: reveal_tiles_reveal_loop.induct)
  case (1 g p)
  from wf_interior[OF 1(2,4)] obtain a where a: "tile_at g p = Some (Some a)" by blast
  from wf_neighbours[OF 1(2,4)] obtain ns where ns: "get_neighbour_tiles g p = Some ns" by blast
  show ?case
  proof (cases "mines (heap g a) = 0")
    case True
    with 1(5) a ns have l: "reveal_loop g ns = Some g'" by simp
    from counts_okD[OF 1(3,4) a ns] True have "\<forall>n \<in> set ns. \<not> isMine (heap g n)"
      by (simp add: filter_empty_conv)
    from 1(1)[OF a refl True ns 1(2,3) neighbours_live(1)[OF ns] this l 1(6,7)]
    show ?thesis .
  next
    case False
    with 1(5) a have "g' = g" by simp
    with 1(6) show ?thesis by simp
  qed
next
  case (2 g)
  then show ?case by simp
next
  case (3 g n ns)
  let ?g1 = "set_revealed g n"
  from 3(6) have n: "n \<in> set (live_tiles g)" and ns: "set ns \<subseteq> set (live_tiles g)" by auto
  from 3(7) have nm: "\<not> isMine (heap g n)" and nsm: "\<forall>m \<in> set ns. \<not> isMine (heap g m)" by auto
  have o1: "only_reveals g ?g1" by simp
  have wf1: "wf_game ?g1" using 3(4) same_grid_wf[of g ?g1] by simp
  have c1: "counts_ok ?g1" by (rule only_reveals_counts_ok[OF o1 3(4,5)])
  show ?case
  proof (cases "\<not> isRevealed (heap g n) \<and> mines (heap g n) = 0")
    case True
    with 3(8) obtain gA where
      gA: "reveal_tiles ?g1 (pos (heap ?g1 n)) = Some gA"
      and g': "reveal_loop (set_revealed gA n) ns = Some g'"
      by (auto simp: bind_eq_Some_conv simp del: reveal_tiles.simps)
    let ?g2 = "set_revealed gA n"
    have i1: "interior ?g1 (pos (heap ?g1 n))" using wf_live(1)[OF wf1, of n] n by simp
    have oA: "only_reveals ?g1 gA" by (rule reveal_only_reveals(1)[OF gA])
    have o2: "only_reveals ?g1 ?g2" by (rule only_reveals_trans[OF oA]) simp
    have og2: "only_reveals g ?g2" by (rule only_reveals_trans[OF o1 o2])
    have wf2: "wf_game ?g2" using same_grid_wf[OF only_reveals_fields(1)[OF o2]] wf1 by simp
    have c2: "counts_ok ?g2" by (rule only_reveals_counts_ok[OF o2 wf1 c1])
    have l2: "set ns \<subseteq> set (live_tiles ?g2)"
      using ns same_grid_simps(5)[OF only_reveals_fields(1)[OF og2]] by simp
    have m2: "\<forall>m \<in> set ns. \<not> isMine (heap ?g2 m)"
      using nsm by (simp add: only_reveals_fields(4)[OF og2])
    have b2: "isMine (heap ?g2 b)" using 3(10) by (simp add: only_reveals_fields(4)[OF og2])
    from 3(2)[OF True gA wf2 c2 l2 m2 g' 3(9) b2] have "isRevealed (heap ?g2 b)" .
    with nm 3(10) have rA: "isRevealed (heap gA b)" by auto
    have b1: "isMine (heap ?g1 b)" using 3(10) by (simp add: only_reveals_fields(4)[OF o1])
    from 3(1)[OF True wf1 c1 i1 gA rA b1] have "isRevealed (heap ?g1 b)" .
    with nm 3(10) show ?thesis by auto
  next
    case False
    with 3(8) have g': "reveal_loop ?g1 ns = Some g'" by auto
    have l1: "set ns \<subseteq> set (live_tiles ?g1)" using ns by simp
    have m1: "\<forall>m \<in> set ns. \<not> isMine (heap ?g1 m)"
      using nsm by (simp add: only_reveals_fields(4)[OF o1])
    have b1: "isMine (heap ?g1 b)" using 3(10) by (simp add: only_reveals_fields(4)[OF o1])
    from 3(3)[OF False wf1 c1 l1 m1 g' 3(9) b1] have "isRevealed (heap ?g1 b)" .
    with nm 3(10) show ?thesis by auto
  qed
qed

section \<open>Properties of mine placement\<close>

lemma set_isMine_simps [simp]:
  "tilemap (set_isMine g a b) = tilemap g" "hTiles (set_isMine g a b) = hTiles g"
  "vTiles (set_isMine g a b) = vTiles g" "running (set_isMine g a b) = running g"
  "minesSet (set_isMine g a b) = minesSet g"
  "pos (heap (set_isMine g a b) c) = pos (heap g c)"
  "isRevealed (heap (set_isMine g a b) c) = isRevealed (heap g c)"
  "flagged (heap (set_isMine g a b) c) = flagged (heap g c)"
  "mines (heap (set_isMine g a b) c) = mines (heap g c)"
  "isMine (heap (set_isMine g a b) c) = (if c = a then b else isMine (heap g c))"
  by (simp_all add: set_isMine_def)

lemma set_count_simps [simp]:
  "tilemap (set_count g a k) = tilemap g" "hTiles (set_count g a k) = hTiles g"
  "vTiles (set_count g a k) = vTiles g" "running (set_count g a k) = running g"
  "minesSet (set_count g a k) = minesSet g"
  "pos (heap (set_count g a k) c) = pos (heap g c)"
  "isRevealed (heap (set_count g a k) c) = isRevealed (heap g c)"
  "flagged (heap (set_count g a k) c) = flagged (heap g c)"
  "isMine (heap (set_count g a k) c) = isMine (heap g c)"
  "mines (heap (set_count g a k) c) = (if c = a then k else mines (heap g c))"
  by (simp_all add: set_count_def)

text \<open>What mine placement leaves alone.\<close>

lemma generate_mines_frame:
  "generate_mines rnd k g cs = Some g' \<Longrightarrow>
     same_grid g g' \<and> running g' = running g \<and> minesSet g' = minesSet g \<and>
     (\<forall>b. isRevealed (heap g' b) = isRevealed (heap g b) \<and>
          flagged (heap g' b) = flagged (heap g b))"
proof (induction cs arbitrary: g k)
  case Nil
  then show ?case by simp
next
  case (Cons c cs)
  show ?case
  proof (cases "rnd k = 0")
    case True
    with Cons.prems obtain a where
      g': "generate_mines rnd (Suc k) (set_isMine g a True) cs = Some g'"
      by (auto simp: bind_eq_Some_conv)
    from Cons.IH[OF g'] same_grid_trans[of g "set_isMine g a True" g'] show ?thesis by simp
  next
    case False
    with Cons.prems have "generate_mines rnd (Suc k) g cs = Some g'" by simp
    from Cons.IH[OF this] show ?thesis .
  qed
qed

lemma generate_mines_ok:
  "wf_game g \<Longrightarrow> \<forall>c \<in> set cs. interior g c \<Longrightarrow> \<exists>g'. generate_mines rnd k g cs = Some g'"
proof (induction cs arbitrary: g k)
  case Nil
  then show ?case by simp
next
  case (Cons c cs)
  from Cons.prems have i: "interior g c" by simp
  from wf_interior[OF Cons.prems(1) i] obtain a where a: "tile_at g c = Some (Some a)" by blast
  let ?g1 = "set_isMine g a True"
  have sg: "same_grid g ?g1" by simp
  have wf1: "wf_game ?g1" using same_grid_wf[OF sg] Cons.prems(1) by simp
  have i1: "\<forall>c \<in> set cs. interior ?g1 c" using Cons.prems(2) by (simp add: interior_def)
  from Cons.IH[OF wf1 i1, of "Suc k"] Cons.IH[OF Cons.prems(1), of "Suc k"] Cons.prems(2) a
  show ?case by auto
qed

lemma clear_mines_simps:
  "tilemap (fold (\<lambda>n g'. set_isMine g' n False) ns g) = tilemap g"
  "hTiles (fold (\<lambda>n g'. set_isMine g' n False) ns g) = hTiles g"
  "vTiles (fold (\<lambda>n g'. set_isMine g' n False) ns g) = vTiles g"
  "running (fold (\<lambda>n g'. set_isMine g' n False) ns g) = running g"
  "minesSet (fold (\<lambda>n g'. set_isMine g' n False) ns g) = minesSet g"
  "pos (heap (fold (\<lambda>n g'. set_isMine g' n False) ns g) c) = pos (heap g c)"
  "isRevealed (heap (fold (\<lambda>n g'. set_isMine g' n False) ns g) c) = isRevealed (heap g c)"
  "flagged (heap (fold (\<lambda>n g'. set_isMine g' n False) ns g) c) = flagged (heap g c)"
  "isMine (heap (fold (\<lambda>n g'. set_isMine g' n False) ns g) c) = (c \<notin> set ns \<and> isMine (heap g c))"
  by (induction ns arbitrary: g; simp; fail)+

lemma clear_mines_same_grid: "same_grid g (fold (\<lambda>n g'. set_isMine g' n False) ns g)"
  by (simp add: same_grid_def clear_mines_simps)

lemma mine_count_cong:
  assumes "same_grid g g'" "\<And>b. isMine (heap g' b) = isMine (heap g b)"
  shows "mine_count g' a = mine_count g a"
  by (simp add: mine_count_def same_grid_simps[OF assms(1)] assms(2) cong: option.case_cong)

lemma mine_count_set_count [simp]: "mine_count (set_count g a v) b = mine_count g b"
  by (rule mine_count_cong) simp_all

lemma count_mines_frame:
  "count_mines g cs = Some g' \<Longrightarrow>
     same_grid g g' \<and> running g' = running g \<and> minesSet g' = minesSet g \<and>
     (\<forall>b. isRevealed (heap g' b) = isRevealed (heap g b) \<and>
          flagged (heap g' b) = flagged (heap g b) \<and>
          isMine (heap g' b) = isMine (heap g b) \<and>
          (mines (heap g' b) = mines (heap g b) \<or> mines (heap g' b) = mine_count g b))"
proof (induction cs arbitrary: g)
  case Nil
  then show ?case by simp
next
  case (Cons c cs)
  from Cons.prems obtain a ns where a: "tile_at g c = Some (Some a)"
    and ns: "get_neighbour_tiles g (pos (heap g a)) = Some ns"
    and g': "count_mines (set_count g a (int (length (filter (\<lambda>n. isMine (heap g n)) ns)))) cs = Some g'"
    by (auto simp: bind_eq_Some_conv)
  let ?g1 = "set_count g a (int (length (filter (\<lambda>n. isMine (heap g n)) ns)))"
  have sg: "same_grid g ?g1" by simp
  have k: "int (length (filter (\<lambda>n. isMine (heap g n)) ns)) = mine_count g a"
    by (simp add: mine_count_def ns)
  note IH = Cons.IH[OF g']
  from IH have "same_grid g g'" using same_grid_trans[OF sg] by blast
  moreover have "mines (heap g' b) = mines (heap g b) \<or> mines (heap g' b) = mine_count g b" for b
  proof -
    from IH have "mines (heap g' b) = mines (heap ?g1 b) \<or> mines (heap g' b) = mine_count ?g1 b"
      by blast
    then show ?thesis using k by (auto split: if_splits)
  qed
  ultimately show ?case using IH by simp
qed

lemma count_mines_counts:
  "count_mines g cs = Some g' \<Longrightarrow> c \<in> set cs \<Longrightarrow> tile_at g c = Some (Some a) \<Longrightarrow>
     mines (heap g' a) = mine_count g a"
proof (induction cs arbitrary: g)
  case Nil
  then show ?case by simp
next
  case (Cons c0 cs)
  from Cons.prems(1) obtain a0 ns where a0: "tile_at g c0 = Some (Some a0)"
    and ns: "get_neighbour_tiles g (pos (heap g a0)) = Some ns"
    and g': "count_mines (set_count g a0 (int (length (filter (\<lambda>n. isMine (heap g n)) ns)))) cs = Some g'"
    by (auto simp: bind_eq_Some_conv)
  let ?g1 = "set_count g a0 (int (length (filter (\<lambda>n. isMine (heap g n)) ns)))"
  have sg: "same_grid g ?g1" by simp
  have k: "int (length (filter (\<lambda>n. isMine (heap g n)) ns)) = mine_count g a0"
    by (simp add: mine_count_def ns)
  show ?case
  proof (cases "c \<in> set cs")
    case True
    have "tile_at ?g1 c = Some (Some a)" using Cons.prems(3) by (simp add: same_grid_simps(1)[OF sg])
    from Cons.IH[OF g' True this] show ?thesis by simp
  next
    case False
    with Cons.prems(2) have "c = c0" by simp
    with a0 Cons.prems(3) have "a = a0" by simp
    from count_mines_frame[OF g'] have "mines (heap g' a) = mines (heap ?g1 a) \<or> mines (heap g' a) = mine_count ?g1 a"
      by blast
    then show ?thesis using k \<open>a = a0\<close> by auto
  qed
qed

lemma count_mines_ok:
  "wf_game g \<Longrightarrow> \<forall>c \<in> set cs. interior g c \<Longrightarrow> \<exists>g'. count_mines g cs = Some g'"
proof (induction cs arbitrary: g)
  case Nil
  then show ?case by simp
next
  case (Cons c cs)
  from Cons.prems have i: "interior g c" by simp
  from wf_interior[OF Cons.prems(1) i] obtain a where a: "tile_at g c = Some (Some a)"
    "pos (heap g a) = c" by blast
  from wf_neighbours[OF Cons.prems(1) i] obtain ns where ns: "get_neighbour_tiles g c = Some ns"
    by blast
  let ?g1 = "set_count g a (int (length (filter (\<lambda>n. isMine (heap g n)) ns)))"
  have sg: "same_grid g ?g1" by simp
  have wf1: "wf_game ?g1" using same_grid_wf[OF sg] Cons.prems(1) by simp
  have i1: "\<forall>c \<in> set cs. interior ?g1 c" using Cons.prems(2) by (simp add: interior_def)
  from Cons.IH[OF wf1 i1] a ns show ?case by simp
qed

lemma set_mines_frame:
  assumes "set_mines rnd g c = Some g'"
  shows "same_grid g g'" "running g' = running g" "minesSet g'"
    "isRevealed (heap g' b) = isRevealed (heap g b)" "flagged (heap g' b) = flagged (heap g b)"
proof -
  from assms obtain g1 a ns where
    g1: "generate_mines rnd 0 (g\<lparr>minesSet := True\<rparr>) (interior_coords g) = Some g1"
    and g': "count_mines (fold (\<lambda>n g'. set_isMine g' n False) ns (set_isMine g1 a False))
               (interior_coords g) = Some g'"
    by (auto simp: set_mines_def bind_eq_Some_conv)
  let ?g0 = "g\<lparr>minesSet := True\<rparr>"
  let ?g2 = "set_isMine g1 a False"
  let ?g3 = "fold (\<lambda>n g'. set_isMine g' n False) ns ?g2"
  note f1 = generate_mines_frame[OF g1] and f3 = count_mines_frame[OF g']
  have s01: "same_grid g g1" using f1 same_grid_trans[of g ?g0 g1] by simp
  have s12: "same_grid g1 ?g2" by simp
  have s23: "same_grid ?g2 ?g3" by (rule clear_mines_same_grid)
  from f3 have s3: "same_grid ?g3 g'" by blast
  show "same_grid g g'"
    by (rule same_grid_trans[OF same_grid_trans[OF same_grid_trans[OF s01 s12] s23] s3])
  from f1 f3 show "running g' = running g" "minesSet g'"
    "isRevealed (heap g' b) = isRevealed (heap g b)" "flagged (heap g' b) = flagged (heap g b)"
    by (simp_all add: clear_mines_simps)
qed

lemma set_mines_result:
  assumes "wf_game g" "interior g c"
  shows "\<exists>g' a ns. set_mines rnd g c = Some g' \<and>
           tile_at g c = Some (Some a) \<and> get_neighbour_tiles g c = Some ns \<and>
           \<not> isMine (heap g' a) \<and> (\<forall>n \<in> set ns. \<not> isMine (heap g' n)) \<and>
           (\<forall>b \<in> set (live_tiles g). mines (heap g' b) = mine_count g' b)"
proof -
  let ?g0 = "g\<lparr>minesSet := True\<rparr>"
  have s0: "same_grid g ?g0" by simp
  have wf0: "wf_game ?g0" using same_grid_wf[OF s0] assms(1) by simp
  have i0: "\<forall>c \<in> set (interior_coords g). interior ?g0 c"
    by (simp add: set_interior_coords interior_def)
  from generate_mines_ok[OF wf0 i0] obtain g1 where
    g1: "generate_mines rnd 0 ?g0 (interior_coords g) = Some g1" by blast
  from generate_mines_frame[OF g1] have s01: "same_grid g g1"
    using same_grid_trans[OF s0] by blast
  from wf_interior[OF assms] obtain a where a: "tile_at g c = Some (Some a)" by blast
  from wf_neighbours[OF assms] obtain ns where ns: "get_neighbour_tiles g c = Some ns" by blast
  let ?g2 = "set_isMine g1 a False"
  let ?g3 = "fold (\<lambda>n g'. set_isMine g' n False) ns ?g2"
  have s12: "same_grid g1 ?g2" by simp
  have s23: "same_grid ?g2 ?g3" by (rule clear_mines_same_grid)
  have s02: "same_grid g ?g2" by (rule same_grid_trans[OF s01 s12])
  have s03: "same_grid g ?g3" by (rule same_grid_trans[OF s02 s23])
  have wf3: "wf_game ?g3" using same_grid_wf[OF s03] assms(1) by simp
  have i3: "\<forall>c \<in> set (interior_coords g). interior ?g3 c"
    by (simp add: set_interior_coords same_grid_simps(3)[OF s03])
  from count_mines_ok[OF wf3 i3] obtain g' where
    g': "count_mines ?g3 (interior_coords g) = Some g'" by blast
  note f3 = count_mines_frame[OF g']
  have a1: "tile_at g1 c = Some (Some a)" using a by (simp add: same_grid_simps(1)[OF s01])
  have ns2: "get_neighbour_tiles ?g2 c = Some ns" using ns by (simp add: same_grid_simps(2)[OF s02])
  have sm: "set_mines rnd g c = Some g'"
    using g1 a1 ns2 g' by (simp add: set_mines_def)
  have m3: "isMine (heap ?g3 b) = (b \<notin> set ns \<and> b \<noteq> a \<and> isMine (heap g1 b))" for b
    by (auto simp: clear_mines_simps)
  have m': "isMine (heap g' b) = isMine (heap ?g3 b)" for b using f3 by blast
  have "\<not> isMine (heap g' a)" by (simp only: m' m3) simp
  moreover have "\<forall>n \<in> set ns. \<not> isMine (heap g' n)" by (simp only: m' m3) simp
  moreover have "mines (heap g' b) = mine_count g' b" if "b \<in> set (live_tiles g)" for b
  proof -
    from wf_live[OF assms(1) that] have ib: "interior g (pos (heap g b))"
      and tb: "tile_at g (pos (heap g b)) = Some (Some b)" .
    from ib have "pos (heap g b) \<in> set (interior_coords g)" by (simp add: set_interior_coords)
    moreover from tb have "tile_at ?g3 (pos (heap g b)) = Some (Some b)"
      by (simp add: same_grid_simps(1)[OF s03])
    ultimately have "mines (heap g' b) = mine_count ?g3 b"
      by (rule count_mines_counts[OF g'])
    also have "mine_count ?g3 b = mine_count g' b"
      using f3 by (intro mine_count_cong[symmetric]) auto
    finally show ?thesis .
  qed
  ultimately show ?thesis using sm a ns by blast
qed

section \<open>Properties of input handling\<close>

lemma set_flagged_simps [simp]:
  "tilemap (set_flagged g a b) = tilemap g" "hTiles (set_flagged g a b) = hTiles g"
  "vTiles (set_flagged g a b) = vTiles g" "running (set_flagged g a b) = running g"
  "minesSet (set_flagged g a b) = minesSet g"
  "pos (heap (set_flagged g a b) c) = pos (heap g c)"
  "isRevealed (heap (set_flagged g a b) c) = isRevealed (heap g c)"
  "isMine (heap (set_flagged g a b) c) = isMine (heap g c)"
  "mines (heap (set_flagged g a b) c) = mines (heap g c)"
  "flagged (heap (set_flagged g a b) c) = (if c = a then b else flagged (heap g c))"
  by (simp_all add: set_flagged_def)

lemma handle_event_primary:
  assumes "tile_at g (click_pos m) = Some (Some a)" "\<not> flagged (heap g a)"
    "\<not> isRevealed (heap g a)"
  shows "handle_event rnd g (MOUSEBUTTONDOWN m 1) =
           do { g2 \<leftarrow> (let g1 = (if isMine (heap g a) then g\<lparr>running := False\<rparr> else g)
                       in if \<not> minesSet g1 then set_mines rnd g1 (click_pos m) else Some g1);
                reveal_tiles (set_revealed g2 a) (click_pos m) }"
  using assms by (simp add: handle_event_def del: reveal_tiles.simps)

lemma handle_event_mono:
  assumes "handle_event rnd g e = Some g'" "isRevealed (heap g b)"
  shows "isRevealed (heap g' b)"
proof (cases e)
  case QUIT
  with assms show ?thesis by (auto simp: handle_event_def)
next
  case OTHER
  with assms show ?thesis by (auto simp: handle_event_def)
next
  case (MOUSEBUTTONDOWN m bt)
  from assms(1) MOUSEBUTTONDOWN obtain t where t: "tile_at g (click_pos m) = Some t"
    by (auto simp: handle_event_def bind_eq_Some_conv)
  consider "bt = 1" | "bt = 3" | "bt \<noteq> 1" "bt \<noteq> 3" by blast
  then show ?thesis
  proof cases
    case 1
    with assms(1) MOUSEBUTTONDOWN t obtain a where a: "t = Some a"
      by (auto simp: handle_event_def bind_eq_Some_conv simp del: reveal_tiles.simps)
    show ?thesis
    proof (cases "flagged (heap g a) \<or> isRevealed (heap g a)")
      case True
      with assms(1) MOUSEBUTTONDOWN t a 1 have "g' = g"
        by (auto simp: handle_event_def simp del: reveal_tiles.simps split: if_splits)
      with assms(2) show ?thesis by simp
    next
      case False
      let ?g1 = "if isMine (heap g a) then g\<lparr>running := False\<rparr> else g"
      from False t a have "handle_event rnd g (MOUSEBUTTONDOWN m 1) =
           do { g2 \<leftarrow> (let g1 = ?g1
                       in if \<not> minesSet g1 then set_mines rnd g1 (click_pos m) else Some g1);
                reveal_tiles (set_revealed g2 a) (click_pos m) }"
        by (intro handle_event_primary) auto
      with assms(1) MOUSEBUTTONDOWN 1 obtain g2 where
        g2: "(if \<not> minesSet ?g1 then set_mines rnd ?g1 (click_pos m) else Some ?g1) = Some g2"
        and g': "reveal_tiles (set_revealed g2 a) (click_pos m) = Some g'"
        by (auto simp: bind_eq_Some_conv Let_def simp del: reveal_tiles.simps)
      have r1: "isRevealed (heap ?g1 b)" using assms(2) by simp
      have "isRevealed (heap g2 b)"
      proof (cases "minesSet ?g1")
        case True
        with g2 r1 show ?thesis by (auto split: if_splits)
      next
        case False
        with g2 have "set_mines rnd ?g1 (click_pos m) = Some g2" by (simp split: if_splits)
        from set_mines_frame(4)[OF this, of b] r1 show ?thesis by simp
      qed
      then have "isRevealed (heap (set_revealed g2 a) b)" by simp
      from only_reveals_fields(7)[OF reveal_only_reveals(1)[OF g'] this] show ?thesis .
    qed
  next
    case 2
    with assms(1) MOUSEBUTTONDOWN t obtain a where
      "g' = set_flagged g a (\<not> flagged (heap g a))"
      by (auto simp: handle_event_def bind_eq_Some_conv)
    with assms(2) show ?thesis by simp
  next
    case 3
    with assms(1) MOUSEBUTTONDOWN t have "g' = g" by (auto simp: handle_event_def)
    with assms(2) show ?thesis by simp
  qed
qed

lemma handle_events_mono:
  "handle_events rnd g es = Some g' \<Longrightarrow> isRevealed (heap g b) \<Longrightarrow> isRevealed (heap g' b)"
proof (induction es arbitrary: g)
  case Nil
  then show ?case by simp
next
  case (Cons e es)
  from Cons.prems(1) obtain g1 where g1: "handle_event rnd g e = Some g1"
    and g': "handle_events rnd g1 es = Some g'"
    by (auto simp: bind_eq_Some_conv)
  from Cons.IH[OF g' handle_event_mono[OF g1 Cons.prems(2)]] show ?case .
qed

section \<open>The claims\<close>

text \<open>
  Claim C2, as amended. On the grid built for a width and a height of at least 3,
  \<^verbatim>\<open>get_neighbour_tiles\<close> at an interior coordinate returns at most 8 tiles, and at least
  3 when the width and the height are at least 4; every returned tile is a tile of the
  interior, stored at the coordinate its \<^verbatim>\<open>pos\<close> names, and the tile at the queried
  coordinate is not among them.
\<close>

theorem neighbours_of_init:
  assumes "3 \<le> w" "3 \<le> h" "interior (Game_init w h) p"
  shows "\<exists>a ns. tile_at (Game_init w h) p = Some (Some a) \<and>
           get_neighbour_tiles (Game_init w h) p = Some ns \<and>
           length ns \<le> 8 \<and> (4 \<le> w \<and> 4 \<le> h \<longrightarrow> 3 \<le> length ns) \<and>
           (\<forall>n \<in> set ns. interior (Game_init w h) (pos (heap (Game_init w h) n)) \<and>
                         tile_at (Game_init w h) (pos (heap (Game_init w h) n)) = Some (Some n)) \<and>
           a \<notin> set ns"
proof -
  let ?g = "Game_init w h"
  have wf: "wf_game ?g" by (rule wf_init)
  from wf_interior[OF wf assms(3)] obtain a where
    a: "tile_at ?g p = Some (Some a)" "pos (heap ?g a) = p" by blast
  from wf_neighbours[OF wf assms(3)] obtain ns where ns: "get_neighbour_tiles ?g p = Some ns"
    by blast
  have "length ns \<le> 8" by (rule neighbours_live(2)[OF ns])
  moreover have "3 \<le> length ns" if "4 \<le> w \<and> 4 \<le> h"
    using wf_neighbours_length[OF wf assms(3) ns] interior_neighbours_ge3[of ?g p] that assms(3)
    by simp
  moreover have "interior ?g (pos (heap ?g n)) \<and> tile_at ?g (pos (heap ?g n)) = Some (Some n)"
    if "n \<in> set ns" for n
    using wf_neighbour_tiles(2,3)[OF wf assms(3) ns that] by simp
  moreover have "a \<notin> set ns"
  proof
    assume "a \<in> set ns"
    from wf_neighbour_tiles(1)[OF wf assms(3) ns this] a(2)
    have "p \<in> set (neighbour_coords p)" by simp
    with neighbour_coords_bounds(5)[OF assms(3)] show False by blast
  qed
  ultimately show ?thesis using a(1) ns by blast
qed

text \<open>An instance on the 4 by 4 grid, at the coordinate (1, 1).\<close>

theorem neighbours_of_init_witness:
  "(3::int) \<le> 4 \<and> interior (Game_init 4 4) \<lparr>vx = 1, vy = 1\<rparr> \<and>
   (\<exists>ns. get_neighbour_tiles (Game_init 4 4) \<lparr>vx = 1, vy = 1\<rparr> = Some ns \<and>
         3 \<le> length ns \<and> length ns \<le> 8)"
proof -
  have i: "interior (Game_init 4 4) \<lparr>vx = 1, vy = 1\<rparr>" by (simp add: interior_def)
  from neighbours_of_init[of 4 4, OF _ _ i] i show ?thesis by auto
qed

text \<open>
  Claim C2 as stated fails: with width and height 3 the only interior tile has no
  neighbour, so fewer than 3 tiles are returned.
\<close>

theorem neighbours_of_init_3x3:
  "(3::int) \<le> 3 \<and> interior (Game_init 3 3) \<lparr>vx = 1, vy = 1\<rparr> \<and>
   get_neighbour_tiles (Game_init 3 3) \<lparr>vx = 1, vy = 1\<rparr> = Some []"
  by code_simp

text \<open>
  Claim C5. On a well-formed grid, \<^verbatim>\<open>reveal_tiles\<close> at an interior coordinate whose tile
  has \<^verbatim>\<open>mines == 0\<close> returns, and afterwards every tile that \<^verbatim>\<open>get_neighbour_tiles\<close>
  gives for the coordinate is revealed, whatever its own \<^verbatim>\<open>mines\<close> count.
\<close>

theorem reveal_tiles_reveals_neighbours:
  assumes "wf_game g" "interior g p" "tile_at g p = Some (Some a)" "mines (heap g a) = 0"
  shows "\<exists>g' ns. reveal_tiles g p = Some g' \<and> get_neighbour_tiles g p = Some ns \<and>
           (\<forall>n \<in> set ns. isRevealed (heap g' n))"
proof -
  from reveal_ok(1)[OF assms(1,2)] obtain g' where g': "reveal_tiles g p = Some g'" by blast
  from wf_neighbours[OF assms(1,2)] obtain ns where ns: "get_neighbour_tiles g p = Some ns"
    by blast
  from g' assms(3,4) ns have "reveal_loop g ns = Some g'" by simp
  from reveal_loop_reveals[OF this] g' ns show ?thesis by blast
qed

text \<open>
  An instance: on the fresh 4 by 4 grid, revealing from (1, 1) reveals its three
  neighbours, the tiles at the addresses 6, 9 and 10.
\<close>

theorem reveal_tiles_reveals_neighbours_witness:
  "wf_game (Game_init 4 4) \<and> interior (Game_init 4 4) \<lparr>vx = 1, vy = 1\<rparr> \<and>
   tile_at (Game_init 4 4) \<lparr>vx = 1, vy = 1\<rparr> = Some (Some 5) \<and>
   mines (heap (Game_init 4 4) 5) = 0 \<and>
   (\<exists>g'. reveal_tiles (Game_init 4 4) \<lparr>vx = 1, vy = 1\<rparr> = Some g' \<and>
         isRevealed (heap g' 6) \<and> isRevealed (heap g' 9) \<and> isRevealed (heap g' 10))"
proof -
  have i: "interior (Game_init 4 4) \<lparr>vx = 1, vy = 1\<rparr>" by (simp add: interior_def)
  have t: "tile_at (Game_init 4 4) \<lparr>vx = 1, vy = 1\<rparr> = Some (Some 5)" by code_simp
  have m: "mines (heap (Game_init 4 4) 5) = 0" by code_simp
  have n: "get_neighbour_tiles (Game_init 4 4) \<lparr>vx = 1, vy = 1\<rparr> = Some [6, 9, 10]" by code_simp
  from reveal_tiles_reveals_neighbours[OF wf_init i t m] n i t m wf_init[of 4 4]
  show ?thesis by auto
qed

text \<open>
  Claim C6. When the tile at the coordinate has \<^verbatim>\<open>mines != 0\<close>, \<^verbatim>\<open>reveal_tiles\<close> returns
  the state it was given: no field of any tile and nothing else is modified.
\<close>

theorem reveal_tiles_numbered_unchanged:
  assumes "tile_at g p = Some (Some a)" "mines (heap g a) \<noteq> 0"
  shows "reveal_tiles g p = Some g"
  using assms by simp

text \<open>An instance: the 3 by 3 grid whose only tile has been given the count 1.\<close>

theorem reveal_tiles_numbered_unchanged_witness:
  "tile_at (set_count (Game_init 3 3) 4 1) \<lparr>vx = 1, vy = 1\<rparr> = Some (Some 4) \<and>
   mines (heap (set_count (Game_init 3 3) 4 1) 4) \<noteq> 0 \<and>
   reveal_tiles (set_count (Game_init 3 3) 4 1) \<lparr>vx = 1, vy = 1\<rparr>
     = Some (set_count (Game_init 3 3) 4 1)"
proof -
  have t: "tile_at (set_count (Game_init 3 3) 4 1) \<lparr>vx = 1, vy = 1\<rparr> = Some (Some 4)"
    by code_simp
  have m: "mines (heap (set_count (Game_init 3 3) 4 1) 4) \<noteq> 0" by code_simp
  from reveal_tiles_numbered_unchanged[OF t m] t m show ?thesis by simp
qed

text \<open>
  Claim C7. \<^verbatim>\<open>reveal_tiles\<close> is a total function (its termination is proved above from
  the fact that a tile is marked revealed before the recursive call and never unmarked),
  and on a well-formed grid at an interior coordinate it returns without raising. The
  tiles for which it calls itself are pairwise different tiles of the grid, each of them
  unrevealed before and revealed after, so the number of recursive calls is at most the
  number of tiles of the grid, \<open>(hTiles - 2) * (vTiles - 2)\<close>.
\<close>

theorem reveal_tiles_terminates_bounded:
  assumes "wf_game g" "interior g p"
  shows "\<exists>g' cs. reveal_tiles_calls g p = Some (g', cs) \<and> reveal_tiles g p = Some g' \<and>
           distinct cs \<and> set cs \<subseteq> set (live_tiles g) \<and>
           (\<forall>c \<in> set cs. \<not> isRevealed (heap g c) \<and> isRevealed (heap g' c)) \<and>
           length cs \<le> length (live_tiles g) \<and>
           length (live_tiles g) = nat (hTiles g - 2) * nat (vTiles g - 2)"
proof -
  from reveal_ok(1)[OF assms] obtain g' where g': "reveal_tiles g p = Some g'" by blast
  with calls_fst(1)[of g p] obtain r where r: "reveal_tiles_calls g p = Some r" "fst r = g'"
    by (auto simp del: reveal_tiles.simps reveal_tiles_calls.simps)
  from calls_log(1)[OF r(1)] have log: "distinct (snd r)" "set (snd r) \<subseteq> set (live_tiles g)"
    "\<forall>c \<in> set (snd r). \<not> isRevealed (heap g c) \<and> isRevealed (heap g' c)"
    by (simp_all add: r(2))
  from log(1) have "length (snd r) = card (set (snd r))" by (simp add: distinct_card)
  also have "\<dots> \<le> card (set (live_tiles g))" by (rule card_mono) (use log(2) in simp_all)
  also have "\<dots> \<le> length (live_tiles g)" by (rule card_length)
  finally have "length (snd r) \<le> length (live_tiles g)" .
  moreover from r have "reveal_tiles_calls g p = Some (g', snd r)"
    by (simp del: reveal_tiles_calls.simps) (metis prod.collapse)
  ultimately show ?thesis using g' log length_live_tiles[OF assms(1)] by blast
qed

text \<open>
  An instance: on the fresh 4 by 4 grid, revealing from (1, 1) returns after at most 4
  recursive calls.
\<close>

theorem reveal_tiles_terminates_bounded_witness:
  "wf_game (Game_init 4 4) \<and> interior (Game_init 4 4) \<lparr>vx = 1, vy = 1\<rparr> \<and>
   (\<exists>g' cs. reveal_tiles_calls (Game_init 4 4) \<lparr>vx = 1, vy = 1\<rparr> = Some (g', cs) \<and>
            reveal_tiles (Game_init 4 4) \<lparr>vx = 1, vy = 1\<rparr> = Some g' \<and> length cs \<le> 4)"
proof -
  have i: "interior (Game_init 4 4) \<lparr>vx = 1, vy = 1\<rparr>" by (simp add: interior_def)
  from reveal_tiles_terminates_bounded[OF wf_init i] i wf_init[of 4 4]
  show ?thesis by (auto simp del: reveal_tiles_calls.simps reveal_tiles.simps)
qed

text \<open>
  Claim C3. On a well-formed grid and for an interior coordinate \<open>c\<close>, \<^verbatim>\<open>set_mines\<close>
  returns for every sequence \<open>rnd\<close> of random draws, and afterwards neither the tile at
  \<open>c\<close> nor any tile that \<^verbatim>\<open>get_neighbour_tiles\<close> gives for \<open>c\<close> is a mine.
\<close>

theorem set_mines_safe_zone:
  assumes "wf_game g" "interior g c"
  shows "\<exists>g' a ns. set_mines rnd g c = Some g' \<and>
           tile_at g' c = Some (Some a) \<and> \<not> isMine (heap g' a) \<and>
           get_neighbour_tiles g' c = Some ns \<and> (\<forall>n \<in> set ns. \<not> isMine (heap g' n))"
proof -
  from set_mines_result[OF assms, of rnd] obtain g' a ns where
    r: "set_mines rnd g c = Some g'" "tile_at g c = Some (Some a)"
    "get_neighbour_tiles g c = Some ns" "\<not> isMine (heap g' a)"
    "\<forall>n \<in> set ns. \<not> isMine (heap g' n)" by blast
  note sg = set_mines_frame(1)[OF r(1)]
  from r(2,3) have "tile_at g' c = Some (Some a)" "get_neighbour_tiles g' c = Some ns"
    by (simp_all add: same_grid_simps(1,2)[OF sg])
  with r show ?thesis by blast
qed

text \<open>
  An instance: on the fresh 5 by 5 grid with every draw equal to 0 (every tile is made a
  mine by the first loop), placing the mines around (2, 2) leaves the centre without a
  mine.
\<close>

theorem set_mines_safe_zone_witness:
  "wf_game (Game_init 5 5) \<and> interior (Game_init 5 5) \<lparr>vx = 2, vy = 2\<rparr> \<and>
   (\<exists>g'. set_mines (\<lambda>k. 0) (Game_init 5 5) \<lparr>vx = 2, vy = 2\<rparr> = Some g' \<and>
         tile_at g' \<lparr>vx = 2, vy = 2\<rparr> = Some (Some 12) \<and> \<not> isMine (heap g' 12))"
proof -
  have i: "interior (Game_init 5 5) \<lparr>vx = 2, vy = 2\<rparr>" by (simp add: interior_def)
  have t: "tile_at (Game_init 5 5) \<lparr>vx = 2, vy = 2\<rparr> = Some (Some 12)" by code_simp
  from set_mines_safe_zone[OF wf_init i, of "\<lambda>k. 0"] obtain g' a where
    g': "set_mines (\<lambda>k. 0) (Game_init 5 5) \<lparr>vx = 2, vy = 2\<rparr> = Some g'"
    "tile_at g' \<lparr>vx = 2, vy = 2\<rparr> = Some (Some a)" "\<not> isMine (heap g' a)" by blast
  from t g'(2) have "a = 12"
    by (simp add: same_grid_simps(1)[OF set_mines_frame(1)[OF g'(1)]])
  with g' i wf_init[of 5 5] show ?thesis by simp
qed

text \<open>
  Claim C4. On a well-formed grid and for an interior coordinate \<open>c\<close>, \<^verbatim>\<open>set_mines\<close>
  returns, and afterwards the \<^verbatim>\<open>mines\<close> field of the tile at every interior coordinate
  is the number of mines among the tiles that \<^verbatim>\<open>get_neighbour_tiles\<close> gives for that
  coordinate.
\<close>

theorem set_mines_counts:
  assumes "wf_game g" "interior g c"
  shows "\<exists>g'. set_mines rnd g c = Some g' \<and>
           (\<forall>p. interior g' p \<longrightarrow>
              (\<exists>a ns. tile_at g' p = Some (Some a) \<and> get_neighbour_tiles g' p = Some ns \<and>
                 mines (heap g' a) = int (length (filter (\<lambda>n. isMine (heap g' n)) ns))))"
proof -
  from set_mines_result[OF assms, of rnd] obtain g' where
    r: "set_mines rnd g c = Some g'"
    "\<forall>b \<in> set (live_tiles g). mines (heap g' b) = mine_count g' b" by blast
  note sg = set_mines_frame(1)[OF r(1)]
  have wf': "wf_game g'" using same_grid_wf[OF sg] assms(1) by simp
  have "\<exists>a ns. tile_at g' p = Some (Some a) \<and> get_neighbour_tiles g' p = Some ns \<and>
          mines (heap g' a) = int (length (filter (\<lambda>n. isMine (heap g' n)) ns))"
    if "interior g' p" for p
  proof -
    from wf_interior[OF wf' that] obtain a where a: "tile_at g' p = Some (Some a)"
      "pos (heap g' a) = p" by blast
    from wf_neighbours[OF wf' that] obtain ns where ns: "get_neighbour_tiles g' p = Some ns"
      by blast
    from tile_at_live[OF a(1)] have "a \<in> set (live_tiles g)"
      by (simp add: same_grid_simps(5)[OF sg])
    with r(2) have "mines (heap g' a) = mine_count g' a" by blast
    also have "\<dots> = int (length (filter (\<lambda>n. isMine (heap g' n)) ns))"
      by (simp add: mine_count_def a(2) ns)
    finally show ?thesis using a(1) ns by blast
  qed
  with r(1) show ?thesis by blast
qed

text \<open>
  An instance: on the fresh 5 by 5 grid with every draw equal to 0, after placing the
  mines around (2, 2) the count of the centre tile is the number of mines among its
  neighbours.
\<close>

theorem set_mines_counts_witness:
  "wf_game (Game_init 5 5) \<and> interior (Game_init 5 5) \<lparr>vx = 2, vy = 2\<rparr> \<and>
   (\<exists>g' a ns. set_mines (\<lambda>k. 0) (Game_init 5 5) \<lparr>vx = 2, vy = 2\<rparr> = Some g' \<and>
      interior g' \<lparr>vx = 2, vy = 2\<rparr> \<and>
      tile_at g' \<lparr>vx = 2, vy = 2\<rparr> = Some (Some a) \<and>
      get_neighbour_tiles g' \<lparr>vx = 2, vy = 2\<rparr> = Some ns \<and>
      mines (heap g' a) = int (length (filter (\<lambda>n. isMine (heap g' n)) ns)))"
proof -
  have i: "interior (Game_init 5 5) \<lparr>vx = 2, vy = 2\<rparr>" by (simp add: interior_def)
  from set_mines_counts[OF wf_init i, of "\<lambda>k. 0"] obtain g' where
    g': "set_mines (\<lambda>k. 0) (Game_init 5 5) \<lparr>vx = 2, vy = 2\<rparr> = Some g'"
    and c: "\<forall>p. interior g' p \<longrightarrow>
              (\<exists>a ns. tile_at g' p = Some (Some a) \<and> get_neighbour_tiles g' p = Some ns \<and>
                 mines (heap g' a) = int (length (filter (\<lambda>n. isMine (heap g' n)) ns)))"
    by blast
  have i': "interior g' \<lparr>vx = 2, vy = 2\<rparr>"
    using i by (simp add: same_grid_simps(3)[OF set_mines_frame(1)[OF g']])
  with c g' i wf_init[of 5 5] show ?thesis by blast
qed

text \<open>
  Claim C8. Whenever \<^verbatim>\<open>reveal_tiles\<close>, \<^verbatim>\<open>set_mines\<close> or \<^verbatim>\<open>handle_events\<close> (the primary
  and the secondary action, for any list of events) returns, every tile that was revealed
  before is revealed after.
\<close>

theorem isRevealed_monotone:
  "(reveal_tiles g p = Some g' \<longrightarrow> isRevealed (heap g b) \<longrightarrow> isRevealed (heap g' b)) \<and>
   (set_mines rnd g p = Some g' \<longrightarrow> isRevealed (heap g b) \<longrightarrow> isRevealed (heap g' b)) \<and>
   (handle_events rnd g es = Some g' \<longrightarrow> isRevealed (heap g b) \<longrightarrow> isRevealed (heap g' b))"
proof (intro conjI impI)
  assume "reveal_tiles g p = Some g'" "isRevealed (heap g b)"
  then show "isRevealed (heap g' b)"
    using only_reveals_fields(7)[OF reveal_only_reveals(1)] by blast
next
  assume "set_mines rnd g p = Some g'" "isRevealed (heap g b)"
  then show "isRevealed (heap g' b)" using set_mines_frame(4)[of rnd g p g' b] by simp
next
  assume "handle_events rnd g es = Some g'" "isRevealed (heap g b)"
  then show "isRevealed (heap g' b)" by (rule handle_events_mono)
qed

text \<open>
  An instance: in the example game the tile at address 10 is revealed; it is still
  revealed after a click on the mine at the fourth tile followed by a secondary click on
  the first tile.
\<close>

theorem isRevealed_monotone_witness:
  "isRevealed (heap example_game 10) \<and>
   (\<exists>g'. handle_events example_rnd example_game
            [MOUSEBUTTONDOWN (96, 0) 1, MOUSEBUTTONDOWN (0, 0) 3] = Some g' \<and>
         isRevealed (heap g' 10))"
proof -
  have r: "isRevealed (heap example_game 10)" by code_simp
  have "\<not> Option.is_none (handle_events example_rnd example_game
            [MOUSEBUTTONDOWN (96, 0) 1, MOUSEBUTTONDOWN (0, 0) 3])" by code_simp
  then obtain g' where g': "handle_events example_rnd example_game
            [MOUSEBUTTONDOWN (96, 0) 1, MOUSEBUTTONDOWN (0, 0) 3] = Some g'"
    by (auto simp: Option.is_none_def)
  from isRevealed_monotone[of example_game "\<lparr>vx = 1, vy = 1\<rparr>" g' 10 example_rnd
      "[MOUSEBUTTONDOWN (96, 0) 1, MOUSEBUTTONDOWN (0, 0) 3]"] g' r
  show ?thesis by blast
qed

text \<open>
  Claim C9. A secondary action (button 3) on a tile replaces its \<^verbatim>\<open>flagged\<close> field by the
  negation, whether the tile is revealed or not, and changes nothing else.
\<close>

theorem secondary_action_toggles_flag:
  assumes "tile_at g (click_pos m) = Some (Some a)"
  shows "handle_event rnd g (MOUSEBUTTONDOWN m 3) =
           Some (g\<lparr>heap := (heap g)(a := (heap g a)\<lparr>flagged := \<not> flagged (heap g a)\<rparr>)\<rparr>)"
  using assms by (simp add: handle_event_def set_flagged_def)

text \<open>
  An instance: in the example game the first tile (address 10) is revealed and not
  flagged; a secondary click on it sets its flag.
\<close>

theorem secondary_action_toggles_flag_witness:
  "tile_at example_game (click_pos (0, 0)) = Some (Some 10) \<and>
   isRevealed (heap example_game 10) \<and> \<not> flagged (heap example_game 10) \<and>
   (\<exists>g'. handle_event example_rnd example_game (MOUSEBUTTONDOWN (0, 0) 3) = Some g' \<and>
         flagged (heap g' 10))"
proof -
  have t: "tile_at example_game (click_pos (0, 0)) = Some (Some 10)" by code_simp
  have r: "isRevealed (heap example_game 10) \<and> \<not> flagged (heap example_game 10)" by code_simp
  from secondary_action_toggles_flag[OF t, of example_rnd] t r show ?thesis by simp
qed

text \<open>
  Claim C1, as amended. When the mines have been placed, a primary action (button 1) on an
  unflagged, unrevealed tile that is a mine sets \<^verbatim>\<open>_running\<close> to \<^verbatim>\<open>False\<close>; the handler
  then goes on as for any other tile: it marks the clicked tile revealed and calls
  \<^verbatim>\<open>reveal_tiles\<close> from it. On a well-formed grid the result is the state that this call
  returns.
\<close>

theorem primary_action_on_mine:
  assumes "wf_game g" "minesSet g" "interior g (click_pos m)"
    "tile_at g (click_pos m) = Some (Some a)"
    "\<not> flagged (heap g a)" "\<not> isRevealed (heap g a)" "isMine (heap g a)"
  shows "\<exists>g'. handle_event rnd g (MOUSEBUTTONDOWN m 1) = Some g' \<and>
           reveal_tiles (set_revealed (g\<lparr>running := False\<rparr>) a) (click_pos m) = Some g' \<and>
           \<not> running g' \<and> isRevealed (heap g' a)"
proof -
  let ?g1 = "g\<lparr>running := False\<rparr>"
  let ?g2 = "set_revealed ?g1 a"
  have he: "handle_event rnd g (MOUSEBUTTONDOWN m 1) = reveal_tiles ?g2 (click_pos m)"
    using assms(2,7) handle_event_primary[OF assms(4,5,6), of rnd]
    by (simp del: reveal_tiles.simps)
  have sg: "same_grid g ?g2" by (rule same_grid_trans[of g ?g1]) simp_all
  have wf2: "wf_game ?g2" using same_grid_wf[OF sg] assms(1) by simp
  have i2: "interior ?g2 (click_pos m)" using assms(3) by (simp add: same_grid_simps(3)[OF sg])
  from reveal_ok(1)[OF wf2 i2] obtain g' where g': "reveal_tiles ?g2 (click_pos m) = Some g'"
    by blast
  note o = reveal_only_reveals(1)[OF g']
  have "\<not> running g'" using only_reveals_fields(2)[OF o] by (simp add: set_revealed_def)
  moreover have "isRevealed (heap g' a)" using only_reveals_fields(7)[OF o, of a] by simp
  ultimately show ?thesis using he g' by (simp del: reveal_tiles.simps)
qed

text \<open>
  An instance: in the example game, a click on the mine at the fourth tile of the row
  (address 13) ends the game and leaves that tile revealed.
\<close>

theorem primary_action_on_mine_witness:
  "wf_game example_game \<and> minesSet example_game \<and> interior example_game (click_pos (96, 0)) \<and>
   tile_at example_game (click_pos (96, 0)) = Some (Some 13) \<and>
   \<not> flagged (heap example_game 13) \<and> \<not> isRevealed (heap example_game 13) \<and>
   isMine (heap example_game 13) \<and>
   (\<exists>g'. handle_event example_rnd example_game (MOUSEBUTTONDOWN (96, 0) 1) = Some g' \<and>
         \<not> running g' \<and> isRevealed (heap g' 13))"
proof -
  have h: "wf_game example_game" "minesSet example_game"
    "interior example_game (click_pos (96, 0))"
    "tile_at example_game (click_pos (96, 0)) = Some (Some 13)"
    "\<not> flagged (heap example_game 13)" "\<not> isRevealed (heap example_game 13)"
    "isMine (heap example_game 13)"
    by code_simp+
  from primary_action_on_mine[OF h, of example_rnd] h show ?thesis by blast
qed

text \<open>
  Claim C1 as stated fails. In the example game the mines are placed, the fourth tile of
  the row (address 13) is an unflagged, unrevealed mine and its right neighbour (address
  14) is not revealed. The primary action on the mine returns a state in which the game
  is over, and in which the clicked tile is revealed and so is its right neighbour, which
  only the call of \<^verbatim>\<open>reveal_tiles\<close> can have revealed.
\<close>

theorem primary_action_on_mine_reveals:
  "minesSet example_game \<and> tile_at example_game (click_pos (96, 0)) = Some (Some 13) \<and>
   isMine (heap example_game 13) \<and> \<not> flagged (heap example_game 13) \<and>
   \<not> isRevealed (heap example_game 13) \<and> \<not> isRevealed (heap example_game 14) \<and>
   \<not> Option.is_none (handle_event example_rnd example_game (MOUSEBUTTONDOWN (96, 0) 1)) \<and>
   \<not> running (the (handle_event example_rnd example_game (MOUSEBUTTONDOWN (96, 0) 1))) \<and>
   isRevealed (heap (the (handle_event example_rnd example_game (MOUSEBUTTONDOWN (96, 0) 1))) 13) \<and>
   isRevealed (heap (the (handle_event example_rnd example_game (MOUSEBUTTONDOWN (96, 0) 1))) 14)"
  by code_simp

text \<open>
  Claim C10. On a well-formed grid on which the \<^verbatim>\<open>mines\<close> field of every interior tile is
  the number of mines among its neighbours, \<^verbatim>\<open>reveal_tiles\<close> at an interior coordinate
  returns and marks no mine revealed: a mine that is revealed afterwards was revealed
  before. (It changes no \<^verbatim>\<open>isMine\<close> field either.)
\<close>

theorem reveal_tiles_reveals_no_mine:
  assumes "wf_game g" "counts_ok g" "interior g p"
  shows "\<exists>g'. reveal_tiles g p = Some g' \<and>
           (\<forall>b. isMine (heap g' b) = isMine (heap g b)) \<and>
           (\<forall>b. isMine (heap g' b) \<and> isRevealed (heap g' b) \<longrightarrow> isRevealed (heap g b))"
proof -
  from reveal_ok(1)[OF assms(1,3)] obtain g' where g': "reveal_tiles g p = Some g'" by blast
  have m: "isMine (heap g' b) = isMine (heap g b)" for b
    by (rule only_reveals_fields(4)[OF reveal_only_reveals(1)[OF g']])
  have "isRevealed (heap g b)" if "isMine (heap g' b) \<and> isRevealed (heap g' b)" for b
    using reveal_no_mines(1)[OF assms g', of b] that m by simp
  with g' m show ?thesis by blast
qed

text \<open>
  An instance: in the example game, revealing from the sixth tile of the row leaves the
  mine at the seventh tile (address 16) unrevealed.
\<close>

theorem reveal_tiles_reveals_no_mine_witness:
  "wf_game example_game \<and> counts_ok example_game \<and>
   interior example_game \<lparr>vx = 6, vy = 1\<rparr> \<and>
   isMine (heap example_game 16) \<and> \<not> isRevealed (heap example_game 16) \<and>
   (\<exists>g'. reveal_tiles example_game \<lparr>vx = 6, vy = 1\<rparr> = Some g' \<and>
         \<not> isRevealed (heap g' 16))"
proof -
  have h: "wf_game example_game" "counts_ok example_game"
    "interior example_game \<lparr>vx = 6, vy = 1\<rparr>"
    by code_simp+
  have k: "isMine (heap example_game 16)" "\<not> isRevealed (heap example_game 16)"
    by code_simp+
  from reveal_tiles_reveals_no_mine[OF h] k h show ?thesis
    by (auto simp del: reveal_tiles.simps)
qed

end
